theory Spec2Isabelle
  imports Main "HOL-Library.Word"
begin

section \<open>Data model (systray.go, lines 16-44)\<close>

type_synonym int32 = "32 word"

text \<open>
  A Go pointer \<^verbatim>\<open>*MenuItem\<close>: \<open>None\<close> is nil, \<open>Some a\<close> is the address of
  the heap cell \<open>a\<close>. The registry and every handle hold such pointers, so a field
  written through a handle is seen through the registry as well.
\<close>

type_synonym ptr = "nat option"

record MenuItem =
  item_id :: int32
  title :: string
  tooltip :: string
  disabled :: bool
  checked :: bool
  remove :: bool
  separator :: bool

text \<open>
  What a call or a single statement does: it returns, it cannot proceed for now
  (a lock that is held, a channel with no partner), or the process panics
  (nil dereference, unlock of an unlocked mutex).
\<close>

datatype 'a outcome = Returns 'a | Blocks | Panics

definition then_do :: "'a outcome \<Rightarrow> ('a \<Rightarrow> 'b outcome) \<Rightarrow> 'b outcome" where
  "then_do m f = (case m of Returns x \<Rightarrow> f x | Blocks \<Rightarrow> Blocks | Panics \<Rightarrow> Panics)"

text \<open>
  \<^verbatim>\<open>sync.RWMutex\<close>: one writer or any number of readers. \<open>writer\<close>: a goroutine
  holds the write lock. \<open>readers\<close>: the number of goroutines that hold the read lock.
  \<open>pending\<close>: a goroutine has called \<^verbatim>\<open>Lock\<close> while readers held the lock and waits
  for them to leave; from then on no new reader is let in ("if any goroutine calls
  Lock while the lock is already held by one or more readers, concurrent calls to
  RLock will block until the writer has acquired (and released) the lock").
\<close>

record RWMutex =
  writer :: bool
  pending :: bool
  readers :: nat

text \<open>
  An unbuffered channel, \<^verbatim>\<open>make(chan T)\<close>: it holds no value, only the goroutines
  parked on it, senders with the value they offer and receivers, in arrival order.
\<close>

record 'v chan =
  sendq :: "(nat \<times> 'v) list"
  recvq :: "nat list"

text \<open>The eight methods that change a field and then call \<^verbatim>\<open>update(nil)\<close>.\<close>

datatype mutator =
    SetTitle string
  | SetTooltip string
  | SetSeparator bool
  | Enable
  | Disable
  | Check
  | Uncheck
  | Remove

text \<open>
  The control point of a goroutine: the source line it executes next, with the
  local variables live there. \<open>Recv\<close> is the client's statement
  \<^verbatim>\<open>item := <-ClickedCh\<close>; a goroutine parked on a channel waits for its partner.
  \<open>Upd_142_wait\<close> is a goroutine inside the \<^verbatim>\<open>Lock\<close> of line 142 that has announced
  itself and waits for the readers to leave.
\<close>

datatype pc =
    Run_51 nat
  | Run_52 nat
  | Run_57
  | Go_53 nat
  | Go_53_parked nat
  | Go_54 nat
  | Go_55
  | Quit_62
  | Add_70 string string ptr
  | Add_71 int32 string string ptr
  | Field_write ptr mutator
  | Upd_142 ptr ptr
  | Upd_142_wait ptr ptr
  | Upd_144 ptr ptr
  | Upd_145 ptr ptr
  | Upd_143
  | Ready_149
  | Ready_149_parked
  | Ready_150
  | Sel_153 int32
  | Sel_154 int32
  | Sel_155 ptr
  | Sel_156 ptr
  | Recv
  | Recv_parked
  | Recv_got ptr
  | Finished

text \<open>
  The process: the heap of menu items, the package variables of lines 35-44, what
  the native backend has been told (the calls of \<^verbatim>\<open>addOrUpdateMenuItem\<close>, each with
  the item's address, its fields at the call and the insert-before pointer; whether
  \<^verbatim>\<open>quit\<close> was called), the invocations of the \<^verbatim>\<open>onReady\<close> callback (goroutine and
  callback), the goroutines wired to their OS thread, and the goroutines themselves.
\<close>

record state =
  heap :: "MenuItem list"
  ClickedCh :: "ptr chan"
  readyCh :: "unit chan"
  menuItems :: "int32 \<Rightarrow> ptr"
  menuItemsLock :: RWMutex
  currentID :: int32
  backend :: "(ptr \<times> MenuItem \<times> ptr) list"
  quitting :: bool
  onReady_calls :: "(nat \<times> nat) list"
  os_locked :: "nat list"
  threads :: "pc list"

definition init :: state where
  "init = \<lparr>heap = [], ClickedCh = \<lparr>sendq = [], recvq = []\<rparr>,
     readyCh = \<lparr>sendq = [], recvq = []\<rparr>, menuItems = (\<lambda>i. None),
     menuItemsLock = \<lparr>writer = False, pending = False, readers = 0\<rparr>, currentID = 0,
     backend = [], quitting = False, onReady_calls = [], os_locked = [], threads = []\<rparr>"

section \<open>The statements\<close>

text \<open>Line 70: \<^verbatim>\<open>id := atomic.AddInt32(&currentID, 1)\<close>, one indivisible step.\<close>

definition atomic_AddInt32 :: "state \<Rightarrow> int32 \<times> state" where
  "atomic_AddInt32 s = (currentID s + 1, s\<lparr>currentID := currentID s + 1\<rparr>)"

text \<open>Line 71: \<^verbatim>\<open>item := &MenuItem{...}\<close> allocates a fresh cell.\<close>

definition new_MenuItem :: "MenuItem \<Rightarrow> state \<Rightarrow> nat \<times> state" where
  "new_MenuItem m s = (length (heap s), s\<lparr>heap := heap s @ [m]\<rparr>)"

text \<open>Reading through a pointer panics on nil (and on an address that is no cell).\<close>

definition load :: "ptr \<Rightarrow> state \<Rightarrow> MenuItem outcome" where
  "load p s = (case p of None \<Rightarrow> Panics
     | Some a \<Rightarrow> if a < length (heap s) then Returns (heap s ! a) else Panics)"

text \<open>Lines 78, 89, 95, 106, 112, 123, 129, 136: the field each method assigns.\<close>

fun field_write :: "mutator \<Rightarrow> MenuItem \<Rightarrow> MenuItem" where
  "field_write (SetTitle t) x = x\<lparr>title := t\<rparr>"
| "field_write (SetTooltip t) x = x\<lparr>tooltip := t\<rparr>"
| "field_write (SetSeparator b) x = x\<lparr>separator := b\<rparr>"
| "field_write Enable x = x\<lparr>disabled := False\<rparr>"
| "field_write Disable x = x\<lparr>disabled := True\<rparr>"
| "field_write Check x = x\<lparr>checked := True\<rparr>"
| "field_write Uncheck x = x\<lparr>checked := False\<rparr>"
| "field_write Remove x = x\<lparr>remove := True\<rparr>"

definition assign :: "ptr \<Rightarrow> mutator \<Rightarrow> state \<Rightarrow> state outcome" where
  "assign item m s = (case item of None \<Rightarrow> Panics
     | Some a \<Rightarrow> if a < length (heap s)
         then Returns (s\<lparr>heap := (heap s)[a := field_write m (heap s ! a)]\<rparr>)
         else Panics)"

text \<open>
  Lines 142, 143, 153, 155: the four operations on \<^verbatim>\<open>menuItemsLock\<close>. \<^verbatim>\<open>Lock\<close> has two
  parts: the caller waits for the writers before it and announces itself, which
  keeps new readers out; then it waits until the readers inside have left and holds
  the lock. \<open>Lock\<close> is the call that goes through both parts without waiting.
\<close>

definition Lock_announce :: "state \<Rightarrow> state outcome" where
  "Lock_announce s = (if writer (menuItemsLock s) \<or> pending (menuItemsLock s) then Blocks
     else Returns (s\<lparr>menuItemsLock := (menuItemsLock s)\<lparr>pending := True\<rparr>\<rparr>))"

definition Lock_acquire :: "state \<Rightarrow> state outcome" where
  "Lock_acquire s = (if readers (menuItemsLock s) \<noteq> 0 then Blocks
     else Returns (s\<lparr>menuItemsLock := (menuItemsLock s)\<lparr>writer := True, pending := False\<rparr>\<rparr>))"

definition Lock :: "state \<Rightarrow> state outcome" where
  "Lock s = then_do (Lock_announce s) Lock_acquire"

definition Unlock :: "state \<Rightarrow> state outcome" where
  "Unlock s = (if writer (menuItemsLock s)
     then Returns (s\<lparr>menuItemsLock := (menuItemsLock s)\<lparr>writer := False\<rparr>\<rparr>)
     else Panics)"

text \<open>
  \<^verbatim>\<open>RLock\<close> waits while a writer holds the lock and while a writer waits for it.
  (The runtime lets the readers that waited in when that writer unlocks, ahead of the
  next writer; in the model a waiting reader tries again, so that a later writer may
  overtake it. This adds interleavings and changes nothing for a call that arrives.)
\<close>

definition RLock :: "state \<Rightarrow> state outcome" where
  "RLock s = (if writer (menuItemsLock s) \<or> pending (menuItemsLock s) then Blocks
     else Returns (s\<lparr>menuItemsLock :=
       (menuItemsLock s)\<lparr>readers := readers (menuItemsLock s) + 1\<rparr>\<rparr>))"

definition RUnlock :: "state \<Rightarrow> state outcome" where
  "RUnlock s = (if readers (menuItemsLock s) = 0 then Panics
     else Returns (s\<lparr>menuItemsLock :=
       (menuItemsLock s)\<lparr>readers := readers (menuItemsLock s) - 1\<rparr>\<rparr>))"

text \<open>Line 144: \<^verbatim>\<open>menuItems[item.id] = item\<close>.\<close>

definition store_item :: "ptr \<Rightarrow> state \<Rightarrow> state outcome" where
  "store_item item s =
     then_do (load item s) (\<lambda>x. Returns (s\<lparr>menuItems := (menuItems s)(item_id x := item)\<rparr>))"

text \<open>
  Modelled from the spec: \<^verbatim>\<open>addOrUpdateMenuItem\<close>, called at line 145, is the backend's
  \<^verbatim>\<open>applyMenuItem(item, insertBeforeItemOrNil)\<close> and is not in systray.go. The update
  "forwards the full current state plus an optional insert-before hint to the native
  backend"; the model records each call: the item's pointer, the fields it has at the
  call, and the insert-before pointer.
\<close>

definition addOrUpdateMenuItem :: "ptr \<Rightarrow> ptr \<Rightarrow> state \<Rightarrow> state outcome" where
  "addOrUpdateMenuItem item bef s =
     then_do (load item s) (\<lambda>x. Returns (s\<lparr>backend := backend s @ [(item, x, bef)]\<rparr>))"

text \<open>
  Modelled from the spec: \<^verbatim>\<open>nativeLoop\<close>, called at line 57, is the backend's
  \<^verbatim>\<open>runLoop()\<close> and is not in systray.go: it "blocks until told to stop" (and, by the
  comment of line 48, \<^verbatim>\<open>Run\<close> "blocks until systray.Quit() is called").
\<close>

definition nativeLoop :: "state \<Rightarrow> state outcome" where
  "nativeLoop s = (if quitting s then Returns s else Blocks)"

text \<open>
  Modelled from the spec: \<^verbatim>\<open>quit\<close>, called at line 62, is the backend's \<^verbatim>\<open>stop()\<close>
  and is not in systray.go: it "asks the backend to stop that loop".
\<close>

definition quit :: "state \<Rightarrow> state" where
  "quit s = s\<lparr>quitting := True\<rparr>"

text \<open>
  A goroutine parked on a channel resumes when its partner arrives: a receiver with
  the value it is handed, a sender once its value is taken.
\<close>

fun deliver :: "ptr \<Rightarrow> pc \<Rightarrow> pc" where
  "deliver v Recv_parked = Recv_got v"
| "deliver v p = p"

fun signal :: "pc \<Rightarrow> pc" where
  "signal (Go_53_parked cb) = Go_54 cb"
| "signal p = p"

fun sent :: "pc \<Rightarrow> pc" where
  "sent Ready_149_parked = Ready_150"
| "sent p = p"

text \<open>
  Lines 156-160: the \<^verbatim>\<open>select\<close> with a \<^verbatim>\<open>default\<close> branch. With a receiver parked on
  \<^verbatim>\<open>ClickedCh\<close> the first one is handed the item; otherwise nothing happens.
\<close>

definition select_send :: "ptr \<Rightarrow> state \<Rightarrow> state" where
  "select_send item s = (case recvq (ClickedCh s) of
       [] \<Rightarrow> s
     | r # rs \<Rightarrow> s\<lparr>ClickedCh := (ClickedCh s)\<lparr>recvq := rs\<rparr>,
                   threads := (threads s)[r := deliver item (threads s ! r)]\<rparr>)"

section \<open>The functions, run without interleaving\<close>

text \<open>Lines 141-146.\<close>

definition update :: "ptr \<Rightarrow> ptr \<Rightarrow> state \<Rightarrow> state outcome" where
  "update item bef s =
     then_do (Lock s) (\<lambda>s1.
     then_do (store_item item s1) (\<lambda>s2.
     then_do (addOrUpdateMenuItem item bef s2) Unlock))"

text \<open>Lines 69-74.\<close>

definition AddMenuItem :: "string \<Rightarrow> string \<Rightarrow> ptr \<Rightarrow> state \<Rightarrow> (ptr \<times> state) outcome" where
  "AddMenuItem ti tt bef s =
     (let (i, s1) = atomic_AddInt32 s;
          (a, s2) = new_MenuItem \<lparr>item_id = i, title = ti, tooltip = tt, disabled = False,
                      checked = False, remove = False, separator = False\<rparr> s1
      in then_do (update (Some a) bef s2) (\<lambda>s3. Returns (Some a, s3)))"

text \<open>
  Lines 77-138: \<^verbatim>\<open>item.SetTitle(t)\<close> is \<open>invoke (SetTitle t) item\<close>, and so on for
  the other seven methods.
\<close>

definition invoke :: "mutator \<Rightarrow> ptr \<Rightarrow> state \<Rightarrow> state outcome" where
  "invoke m item s = then_do (assign item m s) (update item None)"

text \<open>Lines 152-161.\<close>

definition systrayMenuItemSelected :: "int32 \<Rightarrow> state \<Rightarrow> state outcome" where
  "systrayMenuItemSelected i s =
     then_do (RLock s) (\<lambda>s1.
       let item = menuItems s1 i in
       then_do (RUnlock s1) (\<lambda>s2. Returns (select_send item s2)))"

section \<open>Goroutines and their interleavings\<close>

text \<open>
  One step of goroutine \<open>t\<close> at a control point: the next control point and the new
  state. The \<^verbatim>\<open>onReady\<close> callback (line 54) is the client's code; the model records
  that it was invoked, and by which goroutine. A goroutine that leaves \<^verbatim>\<open>update\<close>
  has finished its call; what \<^verbatim>\<open>AddMenuItem\<close> returns at line 73 is given by the
  function \<open>AddMenuItem\<close> above. At line 142 a goroutine takes the lock in one step
  when it is free, and otherwise announces itself as soon as no writer is before it
  and takes the lock in a later step, when the readers have left.
\<close>

fun step_pc :: "nat \<Rightarrow> pc \<Rightarrow> state \<Rightarrow> (pc \<times> state) outcome" where
  "step_pc t (Run_51 cb) s = Returns (Run_52 cb, s\<lparr>os_locked := t # os_locked s\<rparr>)"
| "step_pc t (Run_52 cb) s = Returns (Run_57, s\<lparr>threads := threads s @ [Go_53 cb]\<rparr>)"
| "step_pc t Run_57 s = then_do (nativeLoop s) (\<lambda>s'. Returns (Finished, s'))"
| "step_pc t (Go_53 cb) s = (case sendq (readyCh s) of
       [] \<Rightarrow> Returns (Go_53_parked cb,
               s\<lparr>readyCh := (readyCh s)\<lparr>recvq := recvq (readyCh s) @ [t]\<rparr>\<rparr>)
     | (t', v) # rest \<Rightarrow> Returns (Go_54 cb,
               s\<lparr>readyCh := (readyCh s)\<lparr>sendq := rest\<rparr>,
                 threads := (threads s)[t' := sent (threads s ! t')]\<rparr>))"
| "step_pc t (Go_53_parked cb) s = Blocks"
| "step_pc t (Go_54 cb) s = Returns (Go_55, s\<lparr>onReady_calls := onReady_calls s @ [(t, cb)]\<rparr>)"
| "step_pc t Go_55 s = Blocks"
| "step_pc t Quit_62 s = Returns (Finished, quit s)"
| "step_pc t (Add_70 ti tt bef) s =
     (let (i, s') = atomic_AddInt32 s in Returns (Add_71 i ti tt bef, s'))"
| "step_pc t (Add_71 i ti tt bef) s =
     (let (a, s') = new_MenuItem \<lparr>item_id = i, title = ti, tooltip = tt, disabled = False,
                      checked = False, remove = False, separator = False\<rparr> s
      in Returns (Upd_142 (Some a) bef, s'))"
| "step_pc t (Field_write item m) s =
     then_do (assign item m s) (\<lambda>s'. Returns (Upd_142 item None, s'))"
| "step_pc t (Upd_142 item bef) s = (case Lock s of
       Returns s' \<Rightarrow> Returns (Upd_144 item bef, s')
     | _ \<Rightarrow> then_do (Lock_announce s) (\<lambda>s'. Returns (Upd_142_wait item bef, s')))"
| "step_pc t (Upd_142_wait item bef) s =
     then_do (Lock_acquire s) (\<lambda>s'. Returns (Upd_144 item bef, s'))"
| "step_pc t (Upd_144 item bef) s =
     then_do (store_item item s) (\<lambda>s'. Returns (Upd_145 item bef, s'))"
| "step_pc t (Upd_145 item bef) s =
     then_do (addOrUpdateMenuItem item bef s) (\<lambda>s'. Returns (Upd_143, s'))"
| "step_pc t Upd_143 s = then_do (Unlock s) (\<lambda>s'. Returns (Finished, s'))"
| "step_pc t Ready_149 s = (case recvq (readyCh s) of
       [] \<Rightarrow> Returns (Ready_149_parked,
               s\<lparr>readyCh := (readyCh s)\<lparr>sendq := sendq (readyCh s) @ [(t, ())]\<rparr>\<rparr>)
     | r # rs \<Rightarrow> Returns (Ready_150,
               s\<lparr>readyCh := (readyCh s)\<lparr>recvq := rs\<rparr>,
                 threads := (threads s)[r := signal (threads s ! r)]\<rparr>))"
| "step_pc t Ready_149_parked s = Blocks"
| "step_pc t Ready_150 s = Blocks"
| "step_pc t (Sel_153 i) s = then_do (RLock s) (\<lambda>s'. Returns (Sel_154 i, s'))"
| "step_pc t (Sel_154 i) s = Returns (Sel_155 (menuItems s i), s)"
| "step_pc t (Sel_155 item) s = then_do (RUnlock s) (\<lambda>s'. Returns (Sel_156 item, s'))"
| "step_pc t (Sel_156 item) s = Returns (Finished, select_send item s)"
| "step_pc t Recv s = (case sendq (ClickedCh s) of
       [] \<Rightarrow> Returns (Recv_parked,
               s\<lparr>ClickedCh := (ClickedCh s)\<lparr>recvq := recvq (ClickedCh s) @ [t]\<rparr>\<rparr>)
     | (t', v) # rest \<Rightarrow> Returns (Recv_got v,
               s\<lparr>ClickedCh := (ClickedCh s)\<lparr>sendq := rest\<rparr>,
                 threads := (threads s)[t' := sent (threads s ! t')]\<rparr>))"
| "step_pc t Recv_parked s = Blocks"
| "step_pc t (Recv_got item) s = Blocks"
| "step_pc t Finished s = Blocks"

definition step :: "nat \<Rightarrow> state \<Rightarrow> state outcome" where
  "step t s = (if t < length (threads s)
     then then_do (step_pc t (threads s ! t) s)
            (\<lambda>(p, s'). Returns (s'\<lparr>threads := (threads s')[t := p]\<rparr>))
     else Blocks)"

text \<open>
  The calls that start a goroutine's work: the exported functions, the two hooks
  the backend calls (\<^verbatim>\<open>systrayReady\<close>, \<^verbatim>\<open>systrayMenuItemSelected\<close>) and a client's
  receive on \<^verbatim>\<open>ClickedCh\<close>.
\<close>

datatype call =
    Call_Run nat
  | Call_Quit
  | Call_AddMenuItem string string ptr
  | Call_method ptr mutator
  | Call_systrayReady
  | Call_systrayMenuItemSelected int32
  | Call_receive

fun entry :: "call \<Rightarrow> pc" where
  "entry (Call_Run cb) = Run_51 cb"
| "entry Call_Quit = Quit_62"
| "entry (Call_AddMenuItem ti tt bef) = Add_70 ti tt bef"
| "entry (Call_method item m) = Field_write item m"
| "entry Call_systrayReady = Ready_149"
| "entry (Call_systrayMenuItemSelected i) = Sel_153 i"
| "entry Call_receive = Recv"

text \<open>
  A schedule: \<open>Call c\<close> starts a goroutine at the entry of \<open>c\<close>, \<open>Step t\<close> lets
  goroutine \<open>t\<close> run one statement (nothing happens when it cannot proceed). A
  panic ends the process.
\<close>

datatype event = Call call | Step nat

fun exec :: "event list \<Rightarrow> state \<Rightarrow> state" where
  "exec [] s = s"
| "exec (Call c # es) s = exec es (s\<lparr>threads := threads s @ [entry c]\<rparr>)"
| "exec (Step t # es) s = (case step t s of
       Returns s' \<Rightarrow> exec es s'
     | Blocks \<Rightarrow> exec es s
     | Panics \<Rightarrow> s)"

section \<open>Notions the properties are stated with\<close>

text \<open>
  The number of elements of a list with a property: of goroutines at given control
  points, of events of a kind in a schedule.
\<close>

definition cnt :: "('a \<Rightarrow> bool) \<Rightarrow> 'a list \<Rightarrow> nat" where
  "cnt P xs = length (filter P xs)"

text \<open>
  Lines 144, 145 and the deferred line 143 lie between \<^verbatim>\<open>Lock\<close> and \<^verbatim>\<open>Unlock\<close>;
  lines 154 and 155 lie between \<^verbatim>\<open>RLock\<close> and \<^verbatim>\<open>RUnlock\<close>. Lines 144 and 154 are
  the two statements that touch the map \<^verbatim>\<open>menuItems\<close>; line 145 is the backend call.
  \<open>in_Lock\<close> is the goroutine that waits inside \<^verbatim>\<open>Lock\<close> for the readers to leave.
\<close>

fun in_write :: "pc \<Rightarrow> bool" where
  "in_write (Upd_144 item bef) = True"
| "in_write (Upd_145 item bef) = True"
| "in_write Upd_143 = True"
| "in_write p = False"

fun in_read :: "pc \<Rightarrow> bool" where
  "in_read (Sel_154 i) = True"
| "in_read (Sel_155 item) = True"
| "in_read p = False"

fun in_Lock :: "pc \<Rightarrow> bool" where
  "in_Lock (Upd_142_wait item bef) = True"
| "in_Lock p = False"

fun accesses_registry :: "pc \<Rightarrow> bool" where
  "accesses_registry (Upd_144 item bef) = True"
| "accesses_registry (Sel_154 i) = True"
| "accesses_registry p = False"

fun applying :: "pc \<Rightarrow> bool" where
  "applying (Upd_145 item bef) = True"
| "applying p = False"

fun past_RLock :: "pc \<Rightarrow> bool" where
  "past_RLock (Sel_154 i) = True"
| "past_RLock (Sel_155 item) = True"
| "past_RLock (Sel_156 item) = True"
| "past_RLock p = False"

text \<open>
  The lock is held by exactly the goroutines inside those sections: a writer is alone,
  and the reader count is the number of goroutines between lines 153 and 155. At most
  one goroutine waits inside \<^verbatim>\<open>Lock\<close>, and only while no writer holds the lock.
\<close>

definition lock_inv :: "state \<Rightarrow> bool" where
  "lock_inv s = (cnt in_write (threads s) = (if writer (menuItemsLock s) then 1 else 0)
     \<and> cnt in_read (threads s) = readers (menuItemsLock s)
     \<and> (writer (menuItemsLock s) \<longrightarrow> readers (menuItemsLock s) = 0)
     \<and> cnt in_Lock (threads s) = (if pending (menuItemsLock s) then 1 else 0)
     \<and> (writer (menuItemsLock s) \<longrightarrow> \<not> pending (menuItemsLock s)))"

text \<open>
  A dispatching goroutine whose lookup of line 154 misses: from the lookup on, the
  control points at which the local variable \<^verbatim>\<open>item\<close> is nil; at the lookup itself the
  identifier \<open>i\<close> is not in the registry.
\<close>

fun carries_nil :: "int32 \<Rightarrow> pc \<Rightarrow> bool" where
  "carries_nil i (Sel_154 j) = (j = i)"
| "carries_nil i (Sel_155 item) = (item = None)"
| "carries_nil i (Sel_156 item) = (item = None)"
| "carries_nil i Finished = True"
| "carries_nil i p = False"

definition miss_inv :: "nat \<Rightarrow> int32 \<Rightarrow> state \<Rightarrow> bool" where
  "miss_inv t i s = (t < length (threads s) \<and> carries_nil i (threads s ! t)
     \<and> (threads s ! t = Sel_154 i \<longrightarrow> menuItems s i = None))"

text \<open>
  What the backend has been given: for each identifier, the item pointer of the last
  \<^verbatim>\<open>addOrUpdateMenuItem\<close> call for it (\<open>backend_items\<close>) and the fields that item had
  at that call (\<open>backend_state\<close>). What a reader finds in the registry under an
  identifier: the pointer \<^verbatim>\<open>menuItems[id]\<close>, and through it the item (\<open>lookup\<close>).
\<close>

definition backend_items :: "state \<Rightarrow> int32 \<Rightarrow> ptr" where
  "backend_items s = foldl (\<lambda>v (item, x, bef). v(item_id x := item)) (\<lambda>i. None) (backend s)"

definition backend_state :: "state \<Rightarrow> int32 \<Rightarrow> MenuItem option" where
  "backend_state s = foldl (\<lambda>v (item, x, bef). v(item_id x := Some x)) (\<lambda>i. None) (backend s)"

definition lookup :: "int32 \<Rightarrow> state \<Rightarrow> MenuItem option" where
  "lookup i s = (case menuItems s i of None \<Rightarrow> None
     | Some a \<Rightarrow> if a < length (heap s) then Some (heap s ! a) else None)"

text \<open>
  A store of line 144 whose backend call of line 145 is still to come is the only
  difference between the registry and the backend's items.
\<close>

definition agree_inv :: "state \<Rightarrow> bool" where
  "agree_inv s = ((\<forall>t item bef. t < length (threads s) \<and> threads s ! t = Upd_145 item bef \<longrightarrow>
        (\<exists>a. item = Some a \<and> a < length (heap s)
           \<and> menuItems s = (backend_items s)(item_id (heap s ! a) := Some a)))
     \<and> (cnt applying (threads s) = 0 \<longrightarrow> menuItems s = backend_items s))"

definition lock_free :: "state \<Rightarrow> bool" where
  "lock_free s = (\<not> writer (menuItemsLock s) \<and> \<not> pending (menuItemsLock s)
     \<and> readers (menuItemsLock s) = 0)"

text \<open>
  Every backend call was made for an item of the heap.
\<close>

definition backend_closed :: "state \<Rightarrow> bool" where
  "backend_closed s = (\<forall>e \<in> set (backend s). \<exists>a. fst e = Some a \<and> a < length (heap s))"

text \<open>
  The value a mutator's assignment leaves in its field.
\<close>

fun established :: "mutator \<Rightarrow> MenuItem \<Rightarrow> bool" where
  "established (SetTitle t) x = (title x = t)"
| "established (SetTooltip t) x = (tooltip x = t)"
| "established (SetSeparator b) x = (separator x = b)"
| "established Enable x = (\<not> disabled x)"
| "established Disable x = disabled x"
| "established Check x = checked x"
| "established Uncheck x = (\<not> checked x)"
| "established Remove x = remove x"

text \<open>
  The control points of the functions that write: \<^verbatim>\<open>AddMenuItem\<close>, the mutators and
  \<^verbatim>\<open>update\<close>; and the calls that start one. While goroutine \<open>t\<close> is the only writer,
  its mutator call on the item at \<open>a\<close> goes through: the field is assigned after
  line 78, the registry entry is there after line 144.
\<close>

fun writes :: "pc \<Rightarrow> bool" where
  "writes (Add_70 ti tt bef) = True"
| "writes (Add_71 i ti tt bef) = True"
| "writes (Field_write item m) = True"
| "writes (Upd_142 item bef) = True"
| "writes (Upd_142_wait item bef) = True"
| "writes (Upd_144 item bef) = True"
| "writes (Upd_145 item bef) = True"
| "writes Upd_143 = True"
| "writes p = False"

fun starts_writer :: "event \<Rightarrow> bool" where
  "starts_writer (Call (Call_AddMenuItem ti tt bef)) = True"
| "starts_writer (Call (Call_method item m)) = True"
| "starts_writer e = False"

definition ryw_inv :: "nat \<Rightarrow> nat \<Rightarrow> mutator \<Rightarrow> MenuItem \<Rightarrow> state \<Rightarrow> bool" where
  "ryw_inv t a m x s = (t < length (threads s) \<and> a < length (heap s)
     \<and> (\<forall>u < length (threads s). u \<noteq> t \<longrightarrow> \<not> writes (threads s ! u))
     \<and> (threads s ! t = Field_write (Some a) m \<and> heap s ! a = x
        \<or> (threads s ! t = Upd_142 (Some a) None \<or> threads s ! t = Upd_142_wait (Some a) None
              \<or> threads s ! t = Upd_144 (Some a) None)
            \<and> heap s ! a = field_write m x
        \<or> (threads s ! t = Upd_145 (Some a) None \<or> threads s ! t = Upd_143
              \<or> threads s ! t = Finished)
            \<and> heap s ! a = field_write m x \<and> menuItems s (item_id x) = Some a))"

text \<open>
  The result of a call, seen through a projection.
\<close>

fun on_Returns :: "('a \<Rightarrow> 'b) \<Rightarrow> 'a outcome \<Rightarrow> 'b outcome" where
  "on_Returns f (Returns x) = Returns (f x)"
| "on_Returns f Blocks = Blocks"
| "on_Returns f Panics = Panics"

text \<open>
  The ready handshake. A call of \<^verbatim>\<open>systrayReady\<close> has returned at line 150; the
  goroutine of \<^verbatim>\<open>Run\<close> has taken the signal from line 54 on and has run the callback at
  line 55. \<open>run_or_go\<close> are the control points of a call of \<^verbatim>\<open>Run\<close> before it starts
  its goroutine, and of that goroutine; \<open>owns cb\<close> those among them that still have to
  invoke the callback \<open>cb\<close>. The goroutine that called \<^verbatim>\<open>runtime.LockOSThread\<close> is
  at lines 52 or 57, or has returned from \<^verbatim>\<open>Run\<close>.
\<close>

fun returned_ready :: "pc \<Rightarrow> bool" where
  "returned_ready Ready_150 = True"
| "returned_ready p = False"

fun got_signal :: "pc \<Rightarrow> bool" where
  "got_signal (Go_54 cb) = True"
| "got_signal Go_55 = True"
| "got_signal p = False"

fun ran_callback :: "pc \<Rightarrow> bool" where
  "ran_callback Go_55 = True"
| "ran_callback p = False"

fun run_or_go :: "pc \<Rightarrow> bool" where
  "run_or_go (Run_51 cb) = True"
| "run_or_go (Run_52 cb) = True"
| "run_or_go (Go_53 cb) = True"
| "run_or_go (Go_53_parked cb) = True"
| "run_or_go (Go_54 cb) = True"
| "run_or_go Go_55 = True"
| "run_or_go p = False"

fun in_systrayReady :: "pc \<Rightarrow> bool" where
  "in_systrayReady Ready_149 = True"
| "in_systrayReady Ready_149_parked = True"
| "in_systrayReady Ready_150 = True"
| "in_systrayReady p = False"

fun parked_receiver :: "pc \<Rightarrow> bool" where
  "parked_receiver (Go_53_parked cb) = True"
| "parked_receiver p = False"

fun owns :: "nat \<Rightarrow> pc \<Rightarrow> bool" where
  "owns cb (Run_51 cb') = (cb' = cb)"
| "owns cb (Run_52 cb') = (cb' = cb)"
| "owns cb (Go_53 cb') = (cb' = cb)"
| "owns cb (Go_53_parked cb') = (cb' = cb)"
| "owns cb (Go_54 cb') = (cb' = cb)"
| "owns cb p = False"

fun on_ui_thread :: "pc \<Rightarrow> bool" where
  "on_ui_thread (Run_52 cb) = True"
| "on_ui_thread Run_57 = True"
| "on_ui_thread Finished = True"
| "on_ui_thread p = False"

fun Run_called :: "event \<Rightarrow> bool" where
  "Run_called (Call (Call_Run cb)) = True"
| "Run_called e = False"

fun Run_called_with :: "nat \<Rightarrow> event \<Rightarrow> bool" where
  "Run_called_with cb (Call (Call_Run cb')) = (cb' = cb)"
| "Run_called_with cb e = False"

fun systrayReady_called :: "event \<Rightarrow> bool" where
  "systrayReady_called (Call Call_systrayReady) = True"
| "systrayReady_called e = False"

text \<open>
  The queues of \<^verbatim>\<open>readyCh\<close> hold parked goroutines only, each once; nobody parks to
  send on \<^verbatim>\<open>ClickedCh\<close>; and every returned \<^verbatim>\<open>systrayReady\<close> is matched by one goroutine
  of \<^verbatim>\<open>Run\<close> that took its signal.
\<close>

definition ready_inv :: "state \<Rightarrow> bool" where
  "ready_inv s = (sendq (ClickedCh s) = []
     \<and> distinct (map fst (sendq (readyCh s)))
     \<and> (\<forall>t \<in> set (map fst (sendq (readyCh s))).
           t < length (threads s) \<and> threads s ! t = Ready_149_parked)
     \<and> distinct (recvq (readyCh s))
     \<and> (\<forall>r \<in> set (recvq (readyCh s)).
           r < length (threads s) \<and> parked_receiver (threads s ! r))
     \<and> cnt returned_ready (threads s) = cnt got_signal (threads s))"

text \<open>
  Every recorded invocation of the callback was made by a goroutine that is now at
  line 55, each goroutine at most once; the goroutines wired to their OS thread are
  callers of \<^verbatim>\<open>Run\<close>.
\<close>

definition callback_inv :: "state \<Rightarrow> bool" where
  "callback_inv s = ((\<forall>g \<in> set (map fst (onReady_calls s)).
         g < length (threads s) \<and> threads s ! g = Go_55)
     \<and> distinct (map fst (onReady_calls s))
     \<and> length (onReady_calls s) = cnt ran_callback (threads s)
     \<and> (\<forall>u \<in> set (os_locked s). u < length (threads s) \<and> on_ui_thread (threads s ! u)))"

text \<open>
  The identifiers issued along a schedule, in the order of the increments of line 70:
  the value of the local variable \<^verbatim>\<open>id\<close> after a goroutine has executed that line.
\<close>

fun allocates :: "pc \<Rightarrow> bool" where
  "allocates (Add_70 ti tt bef) = True"
| "allocates p = False"

fun local_id :: "pc \<Rightarrow> int32 list" where
  "local_id (Add_71 i ti tt bef) = [i]"
| "local_id p = []"

definition issues :: "nat \<Rightarrow> state \<Rightarrow> state \<Rightarrow> int32 list" where
  "issues t s s' = (if allocates (threads s ! t) then local_id (threads s' ! t) else [])"

fun issued :: "event list \<Rightarrow> state \<Rightarrow> int32 list" where
  "issued [] s = []"
| "issued (Call c # es) s = issued es (s\<lparr>threads := threads s @ [entry c]\<rparr>)"
| "issued (Step t # es) s = (case step t s of
       Returns s' \<Rightarrow> issues t s s' @ issued es s'
     | Blocks \<Rightarrow> issued es s
     | Panics \<Rightarrow> [])"

text \<open>
  Schedules and states used as concrete inputs. \<open>allocations k n\<close> makes \<open>n\<close>
  calls of \<^verbatim>\<open>AddMenuItem\<close>, by goroutines \<open>k\<close>, \<open>k + 1\<close>, ..., and lets each execute
  line 70.
\<close>

fun allocations :: "nat \<Rightarrow> nat \<Rightarrow> event list" where
  "allocations k 0 = []"
| "allocations k (Suc n) = Call (Call_AddMenuItem [] [] None) # Step k # allocations (Suc k) n"

definition add_schedule :: "event list" where
  "add_schedule = [Call (Call_AddMenuItem ''Open'' ''Open window'' None),
     Step 0, Step 0, Step 0, Step 0, Step 0, Step 0]"

definition one_item :: state where
  "one_item = init\<lparr>
     heap := [\<lparr>item_id = 1, title = ''Open'', tooltip = ''Open window'', disabled = False,
               checked = False, remove = False, separator = False\<rparr>],
     menuItems := (\<lambda>i. None)(1 := Some 0),
     currentID := 1,
     backend := [(Some 0, \<lparr>item_id = 1, title = ''Open'', tooltip = ''Open window'',
               disabled = False, checked = False, remove = False, separator = False\<rparr>, None)],
     threads := [Finished]\<rparr>"

definition store_schedule :: "event list" where
  "store_schedule = [Call (Call_AddMenuItem ''Open'' ''Open window'' None),
     Step 0, Step 0, Step 0, Step 0]"

definition lookup_schedule :: "event list" where
  "lookup_schedule = add_schedule @ [Call (Call_systrayMenuItemSelected 1), Step 1, Step 1]"

definition retitle_schedule :: "event list" where
  "retitle_schedule = [Call (Call_AddMenuItem ''Open'' ''Open window'' None),
     Step 0, Step 0, Step 0, Step 0, Step 0, Step 0,
     Call (Call_method (Some 0) (SetTitle ''X'')), Step 1]"

definition listen_schedule :: "event list" where
  "listen_schedule = [Call Call_receive, Step 0]"

definition miss_schedule :: "event list" where
  "miss_schedule = [Call Call_receive, Step 0, Call (Call_systrayMenuItemSelected 5),
     Step 1, Step 1, Step 1, Step 1]"

definition miss_lookup_schedule :: "event list" where
  "miss_lookup_schedule = [Call Call_receive, Step 0, Call (Call_systrayMenuItemSelected 5),
     Step 1]"

definition early_click_schedule :: "event list" where
  "early_click_schedule = [Call Call_receive, Step 0,
     Call (Call_AddMenuItem ''Open'' ''Open window'' None), Step 1, Step 1, Step 1,
     Call (Call_systrayMenuItemSelected 1)]"

definition drop_schedule :: "event list" where
  "drop_schedule = add_schedule @ [Call (Call_systrayMenuItemSelected 1), Step 1, Step 1, Step 1]"

definition late_listener_schedule :: "event list" where
  "late_listener_schedule = drop_schedule @ [Step 1, Call Call_receive, Step 2, Step 2]"

definition blocked_click_schedule :: "event list" where
  "blocked_click_schedule = store_schedule @ [Call (Call_systrayMenuItemSelected 1)]"

definition waiting_writer_schedule :: "event list" where
  "waiting_writer_schedule = add_schedule @ [Call (Call_systrayMenuItemSelected 1), Step 1,
     Call (Call_method (Some 0) (SetTitle ''Close'')), Step 2, Step 2,
     Call (Call_systrayMenuItemSelected 1)]"

definition two_ready_schedule :: "event list" where
  "two_ready_schedule = [Call (Call_Run 7), Call Call_systrayReady, Call Call_systrayReady,
     Step 0, Step 0, Step 1, Step 2, Step 3, Step 3, Step 2, Step 1]"

definition two_runs_schedule :: "event list" where
  "two_runs_schedule = [Call (Call_Run 7), Call (Call_Run 7), Call Call_systrayReady,
     Call Call_systrayReady, Step 0, Step 0, Step 1, Step 1, Step 4, Step 5, Step 2, Step 3,
     Step 4, Step 5]"

definition rerun_schedule :: "event list" where
  "rerun_schedule = [Call (Call_Run 7), Step 0, Step 0, Call Call_systrayReady, Step 1, Step 2,
     Step 1, Call Call_Quit, Step 3, Step 0, Call (Call_Run 7), Step 4, Step 4,
     Call Call_systrayReady, Step 5, Step 6, Step 5]"

definition two_adds_schedule :: "event list" where
  "two_adds_schedule = [Call (Call_AddMenuItem ''A'' [] None),
     Call (Call_AddMenuItem ''B'' [] None), Step 1, Step 0, Step 0, Step 1]"

definition writer_schedule :: "event list" where
  "writer_schedule = add_schedule @ [Call (Call_method (Some 0) (SetTitle ''Close''))]"

definition reader_interleaving :: "event list" where
  "reader_interleaving = [Call (Call_systrayMenuItemSelected 1), Step 1, Step 2, Step 2,
     Step 1, Step 2, Step 1, Step 1, Step 2, Step 1, Step 1]"

section \<open>When a statement returns\<close>

lemma then_do_Returns_iff:
  "then_do m f = Returns y \<longleftrightarrow> (\<exists>x. m = Returns x \<and> f x = Returns y)"
  by (cases m) (simp_all add: then_do_def)

lemma Lock_announce_Returns:
  "Lock_announce s = Returns s' \<longleftrightarrow> \<not> writer (menuItemsLock s) \<and> \<not> pending (menuItemsLock s)
     \<and> s' = s\<lparr>menuItemsLock := (menuItemsLock s)\<lparr>pending := True\<rparr>\<rparr>"
  by (auto simp: Lock_announce_def)

lemma Lock_acquire_Returns:
  "Lock_acquire s = Returns s' \<longleftrightarrow> readers (menuItemsLock s) = 0
     \<and> s' = s\<lparr>menuItemsLock := (menuItemsLock s)\<lparr>writer := True, pending := False\<rparr>\<rparr>"
  by (auto simp: Lock_acquire_def)

lemma Lock_Returns:
  "Lock s = Returns s' \<longleftrightarrow> \<not> writer (menuItemsLock s) \<and> \<not> pending (menuItemsLock s)
     \<and> readers (menuItemsLock s) = 0
     \<and> s' = s\<lparr>menuItemsLock := (menuItemsLock s)\<lparr>writer := True\<rparr>\<rparr>"
  by (cases "menuItemsLock s")
     (auto simp: Lock_def then_do_Returns_iff Lock_announce_Returns Lock_acquire_Returns)

lemma Lock_cases:
  "Lock s = Blocks \<or> (\<exists>s'. Lock s = Returns s')"
  by (simp add: Lock_def Lock_announce_def Lock_acquire_def then_do_def)

lemma Unlock_Returns:
  "Unlock s = Returns s' \<longleftrightarrow> writer (menuItemsLock s)
     \<and> s' = s\<lparr>menuItemsLock := (menuItemsLock s)\<lparr>writer := False\<rparr>\<rparr>"
  by (auto simp: Unlock_def)

lemma RLock_Returns:
  "RLock s = Returns s' \<longleftrightarrow> \<not> writer (menuItemsLock s) \<and> \<not> pending (menuItemsLock s)
     \<and> s' = s\<lparr>menuItemsLock := (menuItemsLock s)\<lparr>readers := readers (menuItemsLock s) + 1\<rparr>\<rparr>"
  by (auto simp: RLock_def)

lemma RUnlock_Returns:
  "RUnlock s = Returns s' \<longleftrightarrow> readers (menuItemsLock s) \<noteq> 0
     \<and> s' = s\<lparr>menuItemsLock := (menuItemsLock s)\<lparr>readers := readers (menuItemsLock s) - 1\<rparr>\<rparr>"
  by (auto simp: RUnlock_def)

lemma load_Returns:
  "load p s = Returns x \<longleftrightarrow> (\<exists>a. p = Some a \<and> a < length (heap s) \<and> x = heap s ! a)"
  by (auto simp: load_def split: option.splits)

lemma assign_Returns:
  "assign p m s = Returns s' \<longleftrightarrow> (\<exists>a. p = Some a \<and> a < length (heap s)
     \<and> s' = s\<lparr>heap := (heap s)[a := field_write m (heap s ! a)]\<rparr>)"
  by (auto simp: assign_def split: option.splits)

lemma store_item_Returns:
  "store_item p s = Returns s' \<longleftrightarrow> (\<exists>a. p = Some a \<and> a < length (heap s)
     \<and> s' = s\<lparr>menuItems := (menuItems s)(item_id (heap s ! a) := p)\<rparr>)"
  by (auto simp: store_item_def then_do_Returns_iff load_Returns)

lemma addOrUpdateMenuItem_Returns:
  "addOrUpdateMenuItem p bef s = Returns s' \<longleftrightarrow> (\<exists>a. p = Some a \<and> a < length (heap s)
     \<and> s' = s\<lparr>backend := backend s @ [(p, heap s ! a, bef)]\<rparr>)"
  by (auto simp: addOrUpdateMenuItem_def then_do_Returns_iff load_Returns)

lemmas Returns_iffs = then_do_Returns_iff Lock_Returns Lock_announce_Returns
  Lock_acquire_Returns Unlock_Returns RLock_Returns
  RUnlock_Returns assign_Returns store_item_Returns addOrUpdateMenuItem_Returns

lemmas eval_defs = init_def step_def then_do_def Lock_def Lock_announce_def
  Lock_acquire_def Unlock_def RLock_def RUnlock_def
  store_item_def load_def addOrUpdateMenuItem_def assign_def atomic_AddInt32_def
  new_MenuItem_def select_send_def nativeLoop_def quit_def

lemmas seq_defs = invoke_def assign_def update_def Lock_def Lock_announce_def
  Lock_acquire_def store_item_def load_def
  addOrUpdateMenuItem_def Unlock_def then_do_def lock_free_def

lemma item_id_field_write [simp]: "item_id (field_write m x) = item_id x"
  by (cases m) simp_all

lemma established_field_write: "established m (field_write m x)"
  by (cases m) simp_all

lemma field_write_frame:
  "(title (field_write m x) = title x \<or> (\<exists>t. m = SetTitle t))
   \<and> (tooltip (field_write m x) = tooltip x \<or> (\<exists>t. m = SetTooltip t))
   \<and> (separator (field_write m x) = separator x \<or> (\<exists>b. m = SetSeparator b))
   \<and> (disabled (field_write m x) = disabled x \<or> m = Enable \<or> m = Disable)
   \<and> (checked (field_write m x) = checked x \<or> m = Check \<or> m = Uncheck)
   \<and> (remove (field_write m x) = remove x \<or> m = Remove)"
  by (cases m) simp_all

text \<open>
  The functions return when the lock is free and the item exists; the result is the
  state with the field, the registry entry and the backend call added.
\<close>

lemma update_Returns:
  assumes "a < length (heap s)" and "lock_free s"
  shows "update (Some a) bef s = Returns (s\<lparr>
     menuItems := (menuItems s)(item_id (heap s ! a) := Some a),
     backend := backend s @ [(Some a, heap s ! a, bef)]\<rparr>)"
  using assms by (simp add: seq_defs)

lemma invoke_Returns:
  assumes "a < length (heap s)" and "lock_free s"
  shows "invoke m (Some a) s = Returns (s\<lparr>heap := (heap s)[a := field_write m (heap s ! a)],
     menuItems := (menuItems s)(item_id (heap s ! a) := Some a),
     backend := backend s @ [(Some a, field_write m (heap s ! a), None)]\<rparr>)"
  using assms by (simp add: seq_defs)

lemma AddMenuItem_Returns:
  assumes "lock_free s"
  shows "AddMenuItem ti tt bef s = Returns (Some (length (heap s)), s\<lparr>
     heap := heap s @ [\<lparr>item_id = currentID s + 1, title = ti, tooltip = tt, disabled = False,
                checked = False, remove = False, separator = False\<rparr>],
     menuItems := (menuItems s)(currentID s + 1 := Some (length (heap s))),
     currentID := currentID s + 1,
     backend := backend s @ [(Some (length (heap s)),
        \<lparr>item_id = currentID s + 1, title = ti, tooltip = tt, disabled = False,
                checked = False, remove = False, separator = False\<rparr>, bef)]\<rparr>)"
  using assms
  by (simp add: AddMenuItem_def atomic_AddInt32_def new_MenuItem_def seq_defs)

lemma systrayMenuItemSelected_Returns:
  assumes "\<not> writer (menuItemsLock s)" and "\<not> pending (menuItemsLock s)"
  shows "systrayMenuItemSelected i s = Returns (select_send (menuItems s i) s)"
  using assms
  by (simp add: systrayMenuItemSelected_def RLock_def RUnlock_def then_do_def)

section \<open>The steps of a goroutine, case by case\<close>

lemma step_cases [consumes 1, case_names Run_51 Run_52 Run_57 Go_53_park Go_53_take Go_54
    Quit_62 Add_70 Add_71 Field_write Upd_142 Upd_142_announce Upd_142_wait Upd_144 Upd_145 Upd_143 Ready_149_park
    Ready_149_hand Sel_153 Sel_154 Sel_155 Sel_156_drop Sel_156_hand Recv_park Recv_take]:
  assumes "step t s = Returns s'"
  obtains
    cb where "t < length (threads s)" "threads s ! t = Run_51 cb"
      "s' = s\<lparr>os_locked := t # os_locked s, threads := (threads s)[t := Run_52 cb]\<rparr>"
  | cb where "t < length (threads s)" "threads s ! t = Run_52 cb"
      "s' = s\<lparr>threads := (threads s @ [Go_53 cb])[t := Run_57]\<rparr>"
  | "t < length (threads s)" "threads s ! t = Run_57" "quitting s"
      "s' = s\<lparr>threads := (threads s)[t := Finished]\<rparr>"
  | cb where "t < length (threads s)" "threads s ! t = Go_53 cb" "sendq (readyCh s) = []"
      "s' = s\<lparr>readyCh := (readyCh s)\<lparr>recvq := recvq (readyCh s) @ [t]\<rparr>,
              threads := (threads s)[t := Go_53_parked cb]\<rparr>"
  | cb t' v rest where "t < length (threads s)" "threads s ! t = Go_53 cb"
      "sendq (readyCh s) = (t', v) # rest"
      "s' = s\<lparr>readyCh := (readyCh s)\<lparr>sendq := rest\<rparr>,
              threads := (threads s)[t' := sent (threads s ! t'), t := Go_54 cb]\<rparr>"
  | cb where "t < length (threads s)" "threads s ! t = Go_54 cb"
      "s' = s\<lparr>onReady_calls := onReady_calls s @ [(t, cb)],
              threads := (threads s)[t := Go_55]\<rparr>"
  | "t < length (threads s)" "threads s ! t = Quit_62"
      "s' = s\<lparr>quitting := True, threads := (threads s)[t := Finished]\<rparr>"
  | ti tt bef where "t < length (threads s)" "threads s ! t = Add_70 ti tt bef"
      "s' = s\<lparr>currentID := currentID s + 1,
              threads := (threads s)[t := Add_71 (currentID s + 1) ti tt bef]\<rparr>"
  | i ti tt bef where "t < length (threads s)" "threads s ! t = Add_71 i ti tt bef"
      "s' = s\<lparr>heap := heap s @ [\<lparr>item_id = i, title = ti, tooltip = tt, disabled = False,
                 checked = False, remove = False, separator = False\<rparr>],
              threads := (threads s)[t := Upd_142 (Some (length (heap s))) bef]\<rparr>"
  | a m where "t < length (threads s)" "threads s ! t = Field_write (Some a) m"
      "a < length (heap s)"
      "s' = s\<lparr>heap := (heap s)[a := field_write m (heap s ! a)],
              threads := (threads s)[t := Upd_142 (Some a) None]\<rparr>"
  | item bef where "t < length (threads s)" "threads s ! t = Upd_142 item bef"
      "\<not> writer (menuItemsLock s)" "\<not> pending (menuItemsLock s)"
      "readers (menuItemsLock s) = 0"
      "s' = s\<lparr>menuItemsLock := (menuItemsLock s)\<lparr>writer := True\<rparr>,
              threads := (threads s)[t := Upd_144 item bef]\<rparr>"
  | item bef where "t < length (threads s)" "threads s ! t = Upd_142 item bef"
      "\<not> writer (menuItemsLock s)" "\<not> pending (menuItemsLock s)"
      "readers (menuItemsLock s) \<noteq> 0"
      "s' = s\<lparr>menuItemsLock := (menuItemsLock s)\<lparr>pending := True\<rparr>,
              threads := (threads s)[t := Upd_142_wait item bef]\<rparr>"
  | item bef where "t < length (threads s)" "threads s ! t = Upd_142_wait item bef"
      "readers (menuItemsLock s) = 0"
      "s' = s\<lparr>menuItemsLock := (menuItemsLock s)\<lparr>writer := True, pending := False\<rparr>,
              threads := (threads s)[t := Upd_144 item bef]\<rparr>"
  | a bef where "t < length (threads s)" "threads s ! t = Upd_144 (Some a) bef"
      "a < length (heap s)"
      "s' = s\<lparr>menuItems := (menuItems s)(item_id (heap s ! a) := Some a),
              threads := (threads s)[t := Upd_145 (Some a) bef]\<rparr>"
  | a bef where "t < length (threads s)" "threads s ! t = Upd_145 (Some a) bef"
      "a < length (heap s)"
      "s' = s\<lparr>backend := backend s @ [(Some a, heap s ! a, bef)],
              threads := (threads s)[t := Upd_143]\<rparr>"
  | "t < length (threads s)" "threads s ! t = Upd_143" "writer (menuItemsLock s)"
      "s' = s\<lparr>menuItemsLock := (menuItemsLock s)\<lparr>writer := False\<rparr>,
              threads := (threads s)[t := Finished]\<rparr>"
  | "t < length (threads s)" "threads s ! t = Ready_149" "recvq (readyCh s) = []"
      "s' = s\<lparr>readyCh := (readyCh s)\<lparr>sendq := sendq (readyCh s) @ [(t, ())]\<rparr>,
              threads := (threads s)[t := Ready_149_parked]\<rparr>"
  | r rs where "t < length (threads s)" "threads s ! t = Ready_149"
      "recvq (readyCh s) = r # rs"
      "s' = s\<lparr>readyCh := (readyCh s)\<lparr>recvq := rs\<rparr>,
              threads := (threads s)[r := signal (threads s ! r), t := Ready_150]\<rparr>"
  | i where "t < length (threads s)" "threads s ! t = Sel_153 i"
      "\<not> writer (menuItemsLock s)" "\<not> pending (menuItemsLock s)"
      "s' = s\<lparr>menuItemsLock :=
                (menuItemsLock s)\<lparr>readers := readers (menuItemsLock s) + 1\<rparr>,
              threads := (threads s)[t := Sel_154 i]\<rparr>"
  | i where "t < length (threads s)" "threads s ! t = Sel_154 i"
      "s' = s\<lparr>threads := (threads s)[t := Sel_155 (menuItems s i)]\<rparr>"
  | item where "t < length (threads s)" "threads s ! t = Sel_155 item"
      "readers (menuItemsLock s) \<noteq> 0"
      "s' = s\<lparr>menuItemsLock :=
                (menuItemsLock s)\<lparr>readers := readers (menuItemsLock s) - 1\<rparr>,
              threads := (threads s)[t := Sel_156 item]\<rparr>"
  | item where "t < length (threads s)" "threads s ! t = Sel_156 item"
      "recvq (ClickedCh s) = []"
      "s' = s\<lparr>threads := (threads s)[t := Finished]\<rparr>"
  | item r rs where "t < length (threads s)" "threads s ! t = Sel_156 item"
      "recvq (ClickedCh s) = r # rs"
      "s' = s\<lparr>ClickedCh := (ClickedCh s)\<lparr>recvq := rs\<rparr>,
              threads := (threads s)[r := deliver item (threads s ! r), t := Finished]\<rparr>"
  | "t < length (threads s)" "threads s ! t = Recv" "sendq (ClickedCh s) = []"
      "s' = s\<lparr>ClickedCh := (ClickedCh s)\<lparr>recvq := recvq (ClickedCh s) @ [t]\<rparr>,
              threads := (threads s)[t := Recv_parked]\<rparr>"
  | t' v rest where "t < length (threads s)" "threads s ! t = Recv"
      "sendq (ClickedCh s) = (t', v) # rest"
      "s' = s\<lparr>ClickedCh := (ClickedCh s)\<lparr>sendq := rest\<rparr>,
              threads := (threads s)[t' := sent (threads s ! t'), t := Recv_got v]\<rparr>"
proof (cases "t < length (threads s)")
  case False
  with assms show ?thesis by (simp add: step_def)
next
  case lt: True
  from assms lt have st:
    "then_do (step_pc t (threads s ! t) s)
       (\<lambda>(p, s'). Returns (s'\<lparr>threads := (threads s')[t := p]\<rparr>)) = Returns s'"
    by (simp add: step_def)
  show ?thesis
  proof (cases "threads s ! t")
    case (Run_51 cb)
    with st lt that(1) show ?thesis by (auto simp: Returns_iffs)
  next
    case (Run_52 cb)
    with st lt that(2) show ?thesis by (auto simp: Returns_iffs)
  next
    case Run_57
    with st lt that(3) show ?thesis
      by (auto simp: Returns_iffs nativeLoop_def split: if_splits)
  next
    case (Go_53 cb)
    with st lt that(4,5) show ?thesis
      by (cases "sendq (readyCh s)") (auto simp: Returns_iffs)
  next
    case (Go_54 cb)
    with st lt that(6) show ?thesis by (auto simp: Returns_iffs)
  next
    case Quit_62
    with st lt that(7) show ?thesis by (auto simp: Returns_iffs quit_def)
  next
    case (Add_70 ti tt bef)
    with st lt that(8) show ?thesis by (auto simp: Returns_iffs atomic_AddInt32_def)
  next
    case (Add_71 i ti tt bef)
    with st lt that(9) show ?thesis by (auto simp: Returns_iffs new_MenuItem_def)
  next
    case (Field_write item m)
    with st lt that(10) show ?thesis by (auto simp: Returns_iffs)
  next
    case (Upd_142 item bef)
    show ?thesis
    proof (cases "Lock s")
      case (Returns s1)
      with Upd_142 st lt that(11) show ?thesis by (auto simp: Returns_iffs)
    next
      case Blocks
      then have "readers (menuItemsLock s) \<noteq> 0 \<or> writer (menuItemsLock s)
          \<or> pending (menuItemsLock s)"
        using Lock_Returns [of s "s\<lparr>menuItemsLock := (menuItemsLock s)\<lparr>writer := True\<rparr>\<rparr>"]
        by auto
      with Blocks Upd_142 st lt that(12) [of item bef] show ?thesis
        by (auto simp: then_do_Returns_iff Lock_announce_Returns)
    next
      case Panics
      with Lock_cases [of s] show ?thesis by simp
    qed
  next
    case (Upd_142_wait item bef)
    with st lt that(13) show ?thesis by (auto simp: Returns_iffs)
  next
    case (Upd_144 item bef)
    with st lt that(14) show ?thesis by (auto simp: Returns_iffs)
  next
    case (Upd_145 item bef)
    with st lt that(15) show ?thesis by (auto simp: Returns_iffs)
  next
    case Upd_143
    with st lt that(16) show ?thesis by (auto simp: Returns_iffs)
  next
    case Ready_149
    with st lt that(17,18) show ?thesis
      by (cases "recvq (readyCh s)") (auto simp: Returns_iffs)
  next
    case (Sel_153 i)
    with st lt that(19) show ?thesis by (auto simp: Returns_iffs)
  next
    case (Sel_154 i)
    with st lt that(20) show ?thesis by (auto simp: Returns_iffs)
  next
    case (Sel_155 item)
    with st lt that(21) show ?thesis by (auto simp: Returns_iffs)
  next
    case (Sel_156 item)
    with st lt that(22,23) show ?thesis
      by (cases "recvq (ClickedCh s)") (auto simp: Returns_iffs select_send_def)
  next
    case Recv
    with st lt that(24,25) show ?thesis
      by (cases "sendq (ClickedCh s)") (auto simp: Returns_iffs)
  qed (use st in \<open>simp_all add: then_do_def\<close>)
qed

text \<open>
  A goroutine that runs a call alone, from its entry, ends in the state the function
  of the previous section returns.
\<close>

lemma invoke_refines:
  assumes "t < length (threads s)" and "threads s ! t = Field_write item m"
    and "invoke m item s = Returns s'"
  shows "exec [Step t, Step t, Step t, Step t, Step t] s
     = s'\<lparr>threads := (threads s')[t := Finished]\<rparr>"
proof -
  from assms(3) obtain a where "item = Some a" "a < length (heap s)"
    "\<not> writer (menuItemsLock s)" "\<not> pending (menuItemsLock s)"
    "readers (menuItemsLock s) = 0"
    and "s' = s\<lparr>heap := (heap s)[a := field_write m (heap s ! a)],
       menuItems := (menuItems s)(item_id (heap s ! a) := Some a),
       backend := backend s @ [(Some a, field_write m (heap s ! a), None)]\<rparr>"
    by (auto simp: invoke_def update_def Returns_iffs)
  with assms(1,2) show ?thesis
    by (simp add: eval_defs)
qed

lemma AddMenuItem_refines:
  assumes "t < length (threads s)" and "threads s ! t = Add_70 ti tt bef"
    and "AddMenuItem ti tt bef s = Returns (item, s')"
  shows "exec [Step t, Step t, Step t, Step t, Step t, Step t] s
     = s'\<lparr>threads := (threads s')[t := Finished]\<rparr>"
proof -
  from assms(3) have "\<not> writer (menuItemsLock s)" "\<not> pending (menuItemsLock s)"
    "readers (menuItemsLock s) = 0"
    and "s' = s\<lparr>heap := heap s @ [\<lparr>item_id = currentID s + 1, title = ti, tooltip = tt,
                disabled = False, checked = False, remove = False, separator = False\<rparr>],
       menuItems := (menuItems s)(currentID s + 1 := Some (length (heap s))),
       currentID := currentID s + 1,
       backend := backend s @ [(Some (length (heap s)),
          \<lparr>item_id = currentID s + 1, title = ti, tooltip = tt, disabled = False,
                checked = False, remove = False, separator = False\<rparr>, bef)]\<rparr>"
    by (auto simp: AddMenuItem_def update_def Returns_iffs atomic_AddInt32_def
          new_MenuItem_def)
  with assms(1,2) show ?thesis
    by (simp add: eval_defs)
qed

lemma systrayMenuItemSelected_refines:
  assumes "t < length (threads s)" and "threads s ! t = Sel_153 i"
    and "systrayMenuItemSelected i s = Returns s'"
  shows "exec [Step t, Step t, Step t, Step t] s
     = s'\<lparr>threads := (threads s')[t := Finished]\<rparr>"
proof -
  from assms(3) have w: "\<not> writer (menuItemsLock s)" "\<not> pending (menuItemsLock s)"
    and s': "s' = select_send (menuItems s i) s"
    by (auto simp: systrayMenuItemSelected_def Returns_iffs)
  have "(threads s)[t := Sel_156 x, r := deliver x ((threads s)[t := Sel_156 x] ! r), t := Finished]
      = (threads s)[r := deliver x (threads s ! r), t := Finished]" for r x
    using assms(1) by (cases "r = t") (simp_all add: list_update_swap)
  with assms(1,2) w show ?thesis
    unfolding s'
    by (simp add: eval_defs split: list.splits)
qed

section \<open>Counting goroutines\<close>

lemma cnt_Nil [simp]: "cnt P [] = 0"
  by (simp add: cnt_def)

lemma cnt_append [simp]: "cnt P (xs @ ys) = cnt P xs + cnt P ys"
  by (simp add: cnt_def)

lemma cnt_Cons [simp]: "cnt P (x # xs) = (if P x then 1 else 0) + cnt P xs"
  by (simp add: cnt_def)

lemma cnt_pos: "t < length xs \<Longrightarrow> P (xs ! t) \<Longrightarrow> 0 < cnt P xs"
  using nth_mem [of t xs] by (auto simp: cnt_def filter_empty_conv)

lemma cnt_update_raw:
  "t < length xs \<Longrightarrow>
   cnt P (xs[t := p]) = (if P (xs ! t) then cnt P xs - 1 else cnt P xs) + (if P p then 1 else 0)"
proof (induction xs arbitrary: t)
  case Nil
  then show ?case by simp
next
  case (Cons x xs)
  show ?case
  proof (cases t)
    case 0
    then show ?thesis by simp
  next
    case (Suc k)
    with Cons.prems have k: "k < length xs" by simp
    show ?thesis
      using Cons.IH [OF k] Suc cnt_pos [OF k, of P] by auto
  qed
qed

lemma cnt_update:
  "t < length xs \<Longrightarrow>
   cnt P (xs[t := p]) =
     (if P (xs ! t) = P p then cnt P xs else if P p then Suc (cnt P xs) else cnt P xs - 1)"
  using cnt_pos [of t xs P] by (auto simp: cnt_update_raw)

lemma cnt_update_same:
  assumes "P (f (xs ! r)) = P (xs ! r)"
  shows "cnt P (xs[r := f (xs ! r)]) = cnt P xs"
proof (cases "r < length xs")
  case True
  then show ?thesis
    using assms cnt_pos [of r xs P] by (auto simp: cnt_update)
next
  case False
  then have "xs[r := f (xs ! r)] = xs"
    by (intro list_update_beyond) simp
  then show ?thesis by simp
qed

lemma cnt_update_resume:
  assumes "\<And>q. P (f q) = P q"
  shows "cnt P (xs[r := f (xs ! r), t := p]) = cnt P (xs[t := p])"
proof (cases "r = t")
  case True
  then show ?thesis by simp
next
  case False
  then have "xs[r := f (xs ! r), t := p] = (xs[t := p])[r := f ((xs[t := p]) ! r)]"
    by (simp add: list_update_swap)
  then show ?thesis
    using cnt_update_same [of P f "xs[t := p]" r] assms by simp
qed

lemma nth_resume:
  "(xs[r := f (xs ! r)]) ! x = (if x = r \<and> r < length xs then f (xs ! x) else xs ! x)"
proof (cases "r < length xs")
  case True
  then show ?thesis by (simp add: nth_list_update)
next
  case False
  then have "xs[r := f (xs ! r)] = xs"
    by (intro list_update_beyond) simp
  with False show ?thesis by simp
qed

lemma cnt_mono: "(\<And>x. P x \<Longrightarrow> Q x) \<Longrightarrow> cnt P xs \<le> cnt Q xs"
  by (induction xs) auto

lemma cnt_zero_iff: "cnt P xs = 0 \<longleftrightarrow> (\<forall>t < length xs. \<not> P (xs ! t))"
  by (simp add: cnt_def filter_empty_conv all_set_conv_all_nth)

lemma cnt_two:
  assumes "i < j" "j < length xs" "P (xs ! i)" "P (xs ! j)"
  shows "2 \<le> cnt P xs"
proof -
  have "xs = take j xs @ drop j xs" by simp
  then have "cnt P xs = cnt P (take j xs) + cnt P (drop j xs)"
    by (metis cnt_append)
  moreover have "0 < cnt P (take j xs)"
    using assms by (intro cnt_pos [of i]) simp_all
  moreover have "0 < cnt P (drop j xs)"
    using assms by (intro cnt_pos [of 0]) simp_all
  ultimately show ?thesis by simp
qed

lemma cnt_unique:
  assumes "cnt P xs \<le> 1" "i < length xs" "j < length xs" "P (xs ! i)" "P (xs ! j)"
  shows "i = j"
proof (rule ccontr)
  assume "i \<noteq> j"
  then consider "i < j" | "j < i" by linarith
  then have "2 \<le> cnt P xs"
    using assms cnt_two [of i j xs P] cnt_two [of j i xs P] by cases simp_all
  with assms(1) show False by simp
qed

text \<open>
  Waking a parked goroutine moves it between control points of the same kind.
\<close>

lemma in_write_resume [simp]:
  "in_write (deliver v p) = in_write p" "in_write (signal p) = in_write p"
  "in_write (sent p) = in_write p"
  by (cases p; simp)+

lemma in_read_resume [simp]:
  "in_read (deliver v p) = in_read p" "in_read (signal p) = in_read p"
  "in_read (sent p) = in_read p"
  by (cases p; simp)+

lemma in_Lock_resume [simp]:
  "in_Lock (deliver v p) = in_Lock p" "in_Lock (signal p) = in_Lock p"
  "in_Lock (sent p) = in_Lock p"
  by (cases p; simp)+

lemma carries_nil_resume [simp]:
  "carries_nil i (deliver v p) = carries_nil i p" "carries_nil i (signal p) = carries_nil i p"
  "carries_nil i (sent p) = carries_nil i p"
  by (cases p; simp)+

lemma Sel_154_resume [simp]:
  "deliver v p = Sel_154 i \<longleftrightarrow> p = Sel_154 i"
  "signal p = Sel_154 i \<longleftrightarrow> p = Sel_154 i"
  "sent p = Sel_154 i \<longleftrightarrow> p = Sel_154 i"
  by (cases p; simp)+

lemma applying_resume [simp]:
  "applying (deliver v p) = applying p" "applying (signal p) = applying p"
  "applying (sent p) = applying p"
  by (cases p; simp)+

lemma Upd_145_resume [simp]:
  "deliver v p = Upd_145 item bef \<longleftrightarrow> p = Upd_145 item bef"
  "signal p = Upd_145 item bef \<longleftrightarrow> p = Upd_145 item bef"
  "sent p = Upd_145 item bef \<longleftrightarrow> p = Upd_145 item bef"
  by (cases p; simp)+

lemma returned_ready_resume [simp]:
  "returned_ready (deliver v p) = returned_ready p"
  "returned_ready (signal p) = returned_ready p"
  by (cases p; simp)+

lemma got_signal_resume [simp]:
  "got_signal (deliver v p) = got_signal p"
  "got_signal (sent p) = got_signal p"
  by (cases p; simp)+

lemma parked_receiver_resume [simp]:
  "parked_receiver (deliver v p) = parked_receiver p"
  "parked_receiver (sent p) = parked_receiver p"
  by (cases p; simp)+

lemma parked_receiver_iff: "parked_receiver p \<longleftrightarrow> (\<exists>cb. p = Go_53_parked cb)"
  by (cases p) simp_all

lemma ran_callback_resume [simp]:
  "ran_callback (deliver v p) = ran_callback p" "ran_callback (signal p) = ran_callback p"
  "ran_callback (sent p) = ran_callback p"
  by (cases p; simp)+

lemma on_ui_thread_resume [simp]:
  "on_ui_thread (deliver v p) = on_ui_thread p" "on_ui_thread (signal p) = on_ui_thread p"
  "on_ui_thread (sent p) = on_ui_thread p"
  by (cases p; simp)+

lemma Go_55_resume [simp]:
  "deliver v p = Go_55 \<longleftrightarrow> p = Go_55" "signal p = Go_55 \<longleftrightarrow> p = Go_55"
  "sent p = Go_55 \<longleftrightarrow> p = Go_55"
  by (cases p; simp)+

lemma run_or_go_resume [simp]:
  "run_or_go (deliver v p) = run_or_go p" "run_or_go (signal p) = run_or_go p"
  "run_or_go (sent p) = run_or_go p"
  by (cases p; simp)+

lemma in_systrayReady_resume [simp]:
  "in_systrayReady (deliver v p) = in_systrayReady p"
  "in_systrayReady (signal p) = in_systrayReady p"
  "in_systrayReady (sent p) = in_systrayReady p"
  by (cases p; simp)+

lemma owns_resume [simp]:
  "owns cb (deliver v p) = owns cb p" "owns cb (signal p) = owns cb p"
  "owns cb (sent p) = owns cb p"
  by (cases p; simp)+

section \<open>Invariants of every schedule\<close>

lemma exec_invariant:
  assumes "I s"
    and "\<And>s t s'. I s \<Longrightarrow> step t s = Returns s' \<Longrightarrow> I s'"
    and "\<And>s c. I s \<Longrightarrow> I (s\<lparr>threads := threads s @ [entry c]\<rparr>)"
  shows "I (exec evs s)"
  using assms(1)
proof (induction evs arbitrary: s)
  case Nil
  then show ?case by simp
next
  case (Cons e evs)
  show ?case
  proof (cases e)
    case (Call c)
    with Cons assms(3) show ?thesis by simp
  next
    case (Step t)
    with Cons assms(2) show ?thesis
      by (cases "step t s") auto
  qed
qed

subsection \<open>The registry lock\<close>

lemma lock_inv_step:
  assumes "lock_inv s" and "step t s = Returns s'"
  shows "lock_inv s'"
proof -
  note pos = cnt_pos [of t "threads s" in_write] cnt_pos [of t "threads s" in_read]
    cnt_pos [of t "threads s" in_Lock]
  from assms(2) show ?thesis
  proof (cases rule: step_cases)
  case (Go_53_take cb t' v rest)
  with assms(1) show ?thesis
    by (simp add: lock_inv_def cnt_update_resume) (auto simp: cnt_update)
next
  case (Ready_149_hand r rs)
  with assms(1) show ?thesis
    by (simp add: lock_inv_def cnt_update_resume) (auto simp: cnt_update)
next
  case (Sel_156_hand item r rs)
  with assms(1) show ?thesis
    by (simp add: lock_inv_def cnt_update_resume) (auto simp: cnt_update)
next
  case (Recv_take t' v rest)
  with assms(1) show ?thesis
    by (simp add: lock_inv_def cnt_update_resume) (auto simp: cnt_update)
next
  qed (use assms(1) pos in \<open>auto simp: lock_inv_def cnt_update nth_append split: if_splits\<close>)
qed

lemma lock_inv_exec: "lock_inv (exec evs init)"
proof (rule exec_invariant)
  show "lock_inv init" by (simp add: lock_inv_def init_def)
next
  fix s t s' assume "lock_inv s" "step t s = Returns s'"
  then show "lock_inv s'" by (rule lock_inv_step)
next
  fix s c assume "lock_inv s"
  then show "lock_inv (s\<lparr>threads := threads s @ [entry c]\<rparr>)"
    by (cases c) (simp_all add: lock_inv_def)
qed

lemma past_RLock_enabled:
  assumes "lock_inv s" and "t < length (threads s)" and "past_RLock (threads s ! t)"
  shows "\<exists>s'. step t s = Returns s'"
proof (cases "threads s ! t")
  case (Sel_155 item)
  with assms have "0 < readers (menuItemsLock s)"
    using cnt_pos [of t "threads s" in_read] by (simp add: lock_inv_def)
  with assms Sel_155 show ?thesis
    by (simp add: step_def then_do_def RUnlock_def)
qed (use assms in \<open>simp_all add: step_def then_do_def\<close>)

lemma Sel_156_step:
  assumes "u < length (threads s)" and "threads s ! u = Sel_156 item"
  shows "step u s = Returns ((select_send item s)
           \<lparr>threads := (threads (select_send item s))[u := Finished]\<rparr>)"
  using assms by (simp add: step_def then_do_def)

lemma dispatch_completes:
  assumes "lock_inv s" and "u < length (threads s)" and "threads s ! u = Sel_154 i"
  shows "threads (exec [Step u, Step u, Step u] s) ! u = Finished"
proof -
  have "0 < readers (menuItemsLock s)"
    using assms cnt_pos [of u "threads s" in_read] by (simp add: lock_inv_def)
  with assms(2,3) show ?thesis
    by (simp add: eval_defs split: list.splits)
qed

lemma miss_inv_step:
  assumes "lock_inv s" and "miss_inv t i s" and "step u s = Returns s'"
  shows "miss_inv t i s'"
proof -
  have r: "0 < readers (menuItemsLock s)" if "threads s ! t = Sel_154 i"
    using assms(1,2) that cnt_pos [of t "threads s" in_read]
    by (simp add: lock_inv_def miss_inv_def)
  have w: "readers (menuItemsLock s) = 0" if "u < length (threads s)" "in_write (threads s ! u)"
    using assms(1) that cnt_pos [of u "threads s" in_write]
    by (auto simp: lock_inv_def split: if_splits)
  from assms(3) show ?thesis
  proof (cases rule: step_cases)
    case (Upd_144 a bef)
    with w have "readers (menuItemsLock s) = 0" by simp
    with r have "threads s ! t \<noteq> Sel_154 i" by auto
    with Upd_144 assms(2) show ?thesis
      by (auto simp: miss_inv_def nth_list_update)
  next
    case (Go_53_take cb t' v rest)
    with assms(2) show ?thesis
      by (auto simp: miss_inv_def nth_list_update nth_resume)
  next
    case (Ready_149_hand r rs)
    with assms(2) show ?thesis
      by (auto simp: miss_inv_def nth_list_update nth_resume)
  next
    case (Sel_156_hand item r rs)
    with assms(2) show ?thesis
      by (auto simp: miss_inv_def nth_list_update nth_resume)
  next
    case (Recv_take t' v rest)
    with assms(2) show ?thesis
      by (auto simp: miss_inv_def nth_list_update nth_resume)
  qed (use assms(2) in \<open>auto simp: miss_inv_def nth_list_update nth_append\<close>)
qed

lemma miss_inv_exec:
  assumes "lock_inv s" and "miss_inv t i s"
  shows "miss_inv t i (exec evs s)"
proof -
  have "lock_inv (exec evs s) \<and> miss_inv t i (exec evs s)"
  proof (rule exec_invariant [where I = "\<lambda>s. lock_inv s \<and> miss_inv t i s"])
    show "lock_inv s \<and> miss_inv t i s" using assms by simp
  next
    fix s u s' assume "lock_inv s \<and> miss_inv t i s" "step u s = Returns s'"
    then show "lock_inv s' \<and> miss_inv t i s'"
      using lock_inv_step miss_inv_step by blast
  next
    fix s c assume a: "lock_inv s \<and> miss_inv t i s"
    then have "lock_inv (s\<lparr>threads := threads s @ [entry c]\<rparr>)"
      by (cases c) (simp_all add: lock_inv_def)
    moreover from a have "miss_inv t i (s\<lparr>threads := threads s @ [entry c]\<rparr>)"
      by (auto simp: miss_inv_def nth_append)
    ultimately show "lock_inv (s\<lparr>threads := threads s @ [entry c]\<rparr>)
       \<and> miss_inv t i (s\<lparr>threads := threads s @ [entry c]\<rparr>)" ..
  qed
  then show ?thesis ..
qed

lemma backend_items_append:
  "backend_items (s\<lparr>backend := backend s @ [(item, x, bef)]\<rparr>)
     = (backend_items s)(item_id x := item)"
  by (simp add: backend_items_def)

lemma backend_items_other [simp]:
  "backend_items (s\<lparr>threads := ts\<rparr>) = backend_items s"
  "backend_items (s\<lparr>heap := h\<rparr>) = backend_items s"
  "backend_items (s\<lparr>menuItems := m\<rparr>) = backend_items s"
  "backend_items (s\<lparr>menuItemsLock := l\<rparr>) = backend_items s"
  "backend_items (s\<lparr>readyCh := c\<rparr>) = backend_items s"
  "backend_items (s\<lparr>ClickedCh := d\<rparr>) = backend_items s"
  "backend_items (s\<lparr>currentID := i\<rparr>) = backend_items s"
  "backend_items (s\<lparr>quitting := q\<rparr>) = backend_items s"
  "backend_items (s\<lparr>onReady_calls := oc\<rparr>) = backend_items s"
  "backend_items (s\<lparr>os_locked := ol\<rparr>) = backend_items s"
  by (simp_all add: backend_items_def)

lemma agree_inv_step:
  assumes "lock_inv s" and "agree_inv s" and "step t s = Returns s'"
  shows "agree_inv s'"
proof -
  have one: "cnt in_write (threads s) \<le> 1"
    using assms(1) by (simp add: lock_inv_def)
  have uniq: "i = j" if "i < length (threads s)" "j < length (threads s)"
    "in_write (threads s ! i)" "in_write (threads s ! j)" for i j
    using cnt_unique [OF one] that by blast
  have app_w: "in_write p" if "applying p" for p
    using that by (cases p) simp_all
  from assms(3) show ?thesis
  proof (cases rule: step_cases)
    case (Upd_144 a bef)
    have none: "cnt applying (threads s) = 0"
    proof -
      have "\<not> applying (threads s ! j)" if "j < length (threads s)" for j
      proof
        assume "applying (threads s ! j)"
        then have "in_write (threads s ! j)" by (rule app_w)
        with uniq [of j t] that Upd_144 have "j = t" by simp
        with \<open>applying (threads s ! j)\<close> Upd_144 show False by simp
      qed
      then show ?thesis by (simp add: cnt_zero_iff)
    qed
    with assms(2) have eq: "menuItems s = backend_items s"
      by (simp add: agree_inv_def)
    have only: "j = t" if "j < length (threads s)"
      "(threads s)[t := Upd_145 (Some a) bef] ! j = Upd_145 item b" for j item b
    proof (rule ccontr)
      assume "j \<noteq> t"
      with that have "threads s ! j = Upd_145 item b" by simp
      then have "in_write (threads s ! j)" by simp
      with uniq [of j t] that Upd_144 \<open>j \<noteq> t\<close> show False by simp
    qed
    show ?thesis
      unfolding agree_inv_def
    proof (intro conjI allI impI)
      fix j item b
      assume j: "j < length (threads s') \<and> threads s' ! j = Upd_145 item b"
      with Upd_144 only [of j item b] have "j = t" by simp
      with j Upd_144 eq show "\<exists>a. item = Some a \<and> a < length (heap s')
           \<and> menuItems s' = (backend_items s')(item_id (heap s' ! a) := Some a)"
        by (intro exI [of _ a]) auto
    next
      assume "cnt applying (threads s') = 0"
      with Upd_144 show "menuItems s' = backend_items s'"
        by (simp add: cnt_update)
    qed
  next
    case (Upd_145 a bef)
    with assms(2) have eq: "menuItems s = (backend_items s)(item_id (heap s ! a) := Some a)"
      by (auto simp: agree_inv_def)
    have only: False if "j < length (threads s)"
      "(threads s)[t := Upd_143] ! j = Upd_145 item b" for j item b
    proof (cases "j = t")
      case True
      with that Upd_145 show False by simp
    next
      case False
      with that have "threads s ! j = Upd_145 item b" by simp
      then have "in_write (threads s ! j)" by simp
      with uniq [of j t] that Upd_145 False show False by simp
    qed
    show ?thesis
      unfolding agree_inv_def
    proof (intro conjI allI impI)
      fix j item b
      assume j: "j < length (threads s') \<and> threads s' ! j = Upd_145 item b"
      with Upd_145 only [of j item b] show "\<exists>a. item = Some a \<and> a < length (heap s')
           \<and> menuItems s' = (backend_items s')(item_id (heap s' ! a) := Some a)"
        by simp
    next
      from Upd_145 eq show "menuItems s' = backend_items s'"
        by (simp add: backend_items_append)
    qed
  next
    case (Go_53_take cb t' v rest)
    with assms(2) show ?thesis
      by (simp add: agree_inv_def cnt_update_resume)
         (auto simp: cnt_update nth_list_update nth_resume split: if_splits)
  next
    case (Ready_149_hand r rs)
    with assms(2) show ?thesis
      by (simp add: agree_inv_def cnt_update_resume)
         (auto simp: cnt_update nth_list_update nth_resume split: if_splits)
  next
    case (Sel_156_hand item r rs)
    with assms(2) show ?thesis
      by (simp add: agree_inv_def cnt_update_resume)
         (auto simp: cnt_update nth_list_update nth_resume split: if_splits)
  next
    case (Recv_take t' v rest)
    with assms(2) show ?thesis
      by (simp add: agree_inv_def cnt_update_resume)
         (auto simp: cnt_update nth_list_update nth_resume split: if_splits)
  next
    case (Run_52 cb)
    with assms(2) show ?thesis
      by (simp add: agree_inv_def cnt_update nth_append)
         (auto simp: nth_list_update nth_append split: if_splits)
  qed (use assms(2) in \<open>auto simp: agree_inv_def cnt_update nth_list_update nth_append
         split: if_splits\<close>)
qed

lemma registry_inv_exec: "lock_inv (exec evs init) \<and> agree_inv (exec evs init)"
proof (rule exec_invariant [where I = "\<lambda>s. lock_inv s \<and> agree_inv s"])
  show "lock_inv init \<and> agree_inv init"
    by (simp add: lock_inv_def agree_inv_def init_def backend_items_def)
next
  fix s t s' assume "lock_inv s \<and> agree_inv s" "step t s = Returns s'"
  then show "lock_inv s' \<and> agree_inv s'"
    using lock_inv_step agree_inv_step by blast
next
  fix s c assume a: "lock_inv s \<and> agree_inv s"
  then have "lock_inv (s\<lparr>threads := threads s @ [entry c]\<rparr>)"
    by (cases c) (simp_all add: lock_inv_def)
  moreover from a have "agree_inv (s\<lparr>threads := threads s @ [entry c]\<rparr>)"
    by (cases c) (auto simp: agree_inv_def nth_append)
  ultimately show "lock_inv (s\<lparr>threads := threads s @ [entry c]\<rparr>)
     \<and> agree_inv (s\<lparr>threads := threads s @ [entry c]\<rparr>)" ..
qed

lemma step_registry_frame:
  assumes "step t s = Returns s'"
  shows "(menuItems s' \<noteq> menuItems s \<longrightarrow> (\<exists>a bef. threads s ! t = Upd_144 (Some a) bef))
     \<and> (backend s' \<noteq> backend s \<longrightarrow> (\<exists>a bef. threads s ! t = Upd_145 (Some a) bef))"
  using assms by (cases rule: step_cases) simp_all

lemma step_ignores_registry:
  assumes "t < length (threads s)" and "\<not> accesses_registry (threads s ! t)"
  shows "step t (s\<lparr>menuItems := m\<rparr>) = on_Returns (\<lambda>s'. s'\<lparr>menuItems := m\<rparr>) (step t s)"
  using assms
  by (cases "threads s ! t")
     (auto simp: step_def then_do_def Lock_def Lock_announce_def Lock_acquire_def Unlock_def RLock_def RUnlock_def
        load_def addOrUpdateMenuItem_def assign_def atomic_AddInt32_def new_MenuItem_def
        select_send_def nativeLoop_def quit_def split: list.splits option.splits)

lemma backend_closed_step:
  assumes "backend_closed s" and "step t s = Returns s'"
  shows "backend_closed s'"
  using assms(2)
  by (cases rule: step_cases) (use assms(1) in \<open>auto simp: backend_closed_def\<close>)

lemma backend_closed_exec: "backend_closed (exec evs init)"
proof (rule exec_invariant)
  show "backend_closed init" by (simp add: backend_closed_def init_def)
next
  fix s t s' assume "backend_closed s" "step t s = Returns s'"
  then show "backend_closed s'" by (rule backend_closed_step)
next
  fix s c assume "backend_closed s"
  then show "backend_closed (s\<lparr>threads := threads s @ [entry c]\<rparr>)"
    by (simp add: backend_closed_def)
qed

subsection \<open>A mutator with no other writer\<close>

lemma writes_resume [simp]:
  "writes (deliver v p) = writes p" "writes (signal p) = writes p" "writes (sent p) = writes p"
  by (cases p; simp)+

lemma resume_fixes:
  "writes p \<or> p = Finished \<Longrightarrow> deliver v p = p \<and> signal p = p \<and> sent p = p"
  by (cases p) simp_all

lemma ryw_inv_step:
  assumes "ryw_inv t a m x s" and "step u s = Returns s'"
  shows "ryw_inv t a m x s'"
proof -
  have fix_t: "deliver v (threads s ! t) = threads s ! t" "signal (threads s ! t) = threads s ! t"
    "sent (threads s ! t) = threads s ! t" for v
    using assms(1) resume_fixes [of "threads s ! t" v] by (auto simp: ryw_inv_def)
  from assms(2) show ?thesis
  proof (cases rule: step_cases)
    case (Go_53_take cb t' v rest)
    with assms(1) fix_t show ?thesis
      by (auto simp: ryw_inv_def nth_list_update nth_resume)
  next
    case (Ready_149_hand r rs)
    with assms(1) fix_t show ?thesis
      by (auto simp: ryw_inv_def nth_list_update nth_resume)
  next
    case (Sel_156_hand item r rs)
    with assms(1) fix_t show ?thesis
      by (auto simp: ryw_inv_def nth_list_update nth_resume)
  next
    case (Recv_take t' v rest)
    with assms(1) fix_t show ?thesis
      by (auto simp: ryw_inv_def nth_list_update nth_resume)
  qed (use assms(1) in \<open>auto simp: ryw_inv_def nth_list_update nth_append\<close>)
qed

lemma ryw_inv_exec:
  assumes "ryw_inv t a m x s" and "\<forall>e \<in> set evs. \<not> starts_writer e"
  shows "ryw_inv t a m x (exec evs s)"
  using assms
proof (induction evs arbitrary: s)
  case Nil
  then show ?case by simp
next
  case (Cons e evs)
  show ?case
  proof (cases e)
    case (Call c)
    with Cons.prems have "ryw_inv t a m x (s\<lparr>threads := threads s @ [entry c]\<rparr>)"
      by (cases c) (auto simp: ryw_inv_def nth_append)
    with Cons Call show ?thesis by simp
  next
    case (Step u)
    show ?thesis
    proof (cases "step u s")
      case (Returns s')
      with Cons.prems(1) have "ryw_inv t a m x s'" by (rule ryw_inv_step)
      with Cons Step Returns show ?thesis by simp
    next
      case Blocks
      with Cons Step show ?thesis by simp
    next
      case Panics
      with Cons Step show ?thesis by simp
    qed
  qed
qed

subsection \<open>The ready handshake\<close>

lemma ready_inv_step:
  assumes "ready_inv s" and "step t s = Returns s'"
  shows "ready_inv s'"
proof -
  from assms(2) show ?thesis
  proof (cases rule: step_cases)
    case (Go_53_take cb t' v rest)
    with assms(1) have t': "t' < length (threads s)" "threads s ! t' = Ready_149_parked"
      and nin: "t' \<notin> fst ` set rest" and ne: "t' \<noteq> t"
      by (auto simp: ready_inv_def)
    from Go_53_take assms(1) t' nin ne show ?thesis
      by (auto simp: ready_inv_def cnt_update nth_list_update parked_receiver_iff)
  next
    case (Ready_149_hand r rs)
    with assms(1) have r: "r < length (threads s)" and pr: "parked_receiver (threads s ! r)"
      and nin: "r \<notin> set rs"
      by (auto simp: ready_inv_def)
    from pr obtain cb where cb: "threads s ! r = Go_53_parked cb"
      by (auto simp: parked_receiver_iff)
    with Ready_149_hand have ne: "r \<noteq> t" by auto
    from Ready_149_hand assms(1) r cb nin ne show ?thesis
      by (auto simp: ready_inv_def cnt_update nth_list_update parked_receiver_iff)
  next
    case (Sel_156_hand item r rs)
    with assms(1) show ?thesis
      by (simp add: ready_inv_def cnt_update_resume)
         (auto simp: cnt_update nth_list_update nth_resume)
  next
    case (Recv_take t' v rest)
    with assms(1) show ?thesis
      by (simp add: ready_inv_def)
  qed (use assms(1) in \<open>auto simp: ready_inv_def cnt_update nth_append nth_list_update
         parked_receiver_iff split: if_splits\<close>)
qed

lemma ready_inv_exec: "ready_inv (exec evs init)"
proof (rule exec_invariant)
  show "ready_inv init" by (simp add: ready_inv_def init_def)
next
  fix s t s' assume "ready_inv s" "step t s = Returns s'"
  then show "ready_inv s'" by (rule ready_inv_step)
next
  fix s c assume "ready_inv s"
  then show "ready_inv (s\<lparr>threads := threads s @ [entry c]\<rparr>)"
    by (cases c) (auto simp: ready_inv_def nth_append)
qed

lemma callback_inv_step:
  assumes "callback_inv s" and "step t s = Returns s'"
  shows "callback_inv s'"
proof -
  from assms(2) show ?thesis
  proof (cases rule: step_cases)
    case (Go_53_take cb t' v rest)
    with assms(1) show ?thesis
      by (simp add: callback_inv_def cnt_update_resume)
         (auto simp: cnt_update nth_list_update nth_resume)
  next
    case (Ready_149_hand r rs)
    with assms(1) show ?thesis
      by (simp add: callback_inv_def cnt_update_resume)
         (auto simp: cnt_update nth_list_update nth_resume)
  next
    case (Sel_156_hand item r rs)
    with assms(1) show ?thesis
      by (simp add: callback_inv_def cnt_update_resume)
         (auto simp: cnt_update nth_list_update nth_resume)
  next
    case (Recv_take t' v rest)
    with assms(1) show ?thesis
      by (simp add: callback_inv_def cnt_update_resume)
         (auto simp: cnt_update nth_list_update nth_resume)
  qed (use assms(1) in \<open>auto simp: callback_inv_def cnt_update nth_append nth_list_update
         split: if_splits\<close>)
qed

lemma callback_inv_exec: "callback_inv (exec evs init)"
proof (rule exec_invariant)
  show "callback_inv init" by (simp add: callback_inv_def init_def)
next
  fix s t s' assume "callback_inv s" "step t s = Returns s'"
  then show "callback_inv s'" by (rule callback_inv_step)
next
  fix s c assume "callback_inv s"
  then show "callback_inv (s\<lparr>threads := threads s @ [entry c]\<rparr>)"
    by (cases c) (auto simp: callback_inv_def nth_append)
qed

lemma run_or_go_step:
  assumes "step t s = Returns s'"
  shows "cnt run_or_go (threads s') = cnt run_or_go (threads s)"
  using assms
  by (cases rule: step_cases)
     (simp_all add: cnt_update_resume, simp_all add: cnt_update nth_append)

lemma in_systrayReady_step:
  assumes "step t s = Returns s'"
  shows "cnt in_systrayReady (threads s') = cnt in_systrayReady (threads s)"
  using assms
  by (cases rule: step_cases)
     (simp_all add: cnt_update_resume, simp_all add: cnt_update nth_append)

lemma owns_step:
  assumes "step t s = Returns s'"
  shows "cnt (owns cb) (threads s') + count_list (map snd (onReady_calls s')) cb
     = cnt (owns cb) (threads s) + count_list (map snd (onReady_calls s)) cb"
proof -
  note pos = cnt_pos [of t "threads s" "owns cb"]
  from assms show ?thesis
    by (cases rule: step_cases)
       (simp_all add: cnt_update_resume, use pos in \<open>auto simp: cnt_update nth_append\<close>)
qed

lemma run_or_go_exec:
  "cnt run_or_go (threads (exec evs s)) \<le> cnt run_or_go (threads s) + cnt Run_called evs"
proof (induction evs arbitrary: s)
  case Nil
  then show ?case by simp
next
  case (Cons e evs)
  show ?case
  proof (cases e)
    case (Call c)
    show ?thesis
      using Cons [of "s\<lparr>threads := threads s @ [entry c]\<rparr>"] Call
      by (cases c) simp_all
  next
    case (Step t)
    show ?thesis
    proof (cases "step t s")
      case (Returns s')
      with Cons [of s'] Step run_or_go_step [OF Returns] show ?thesis by simp
    next
      case Blocks
      with Cons [of s] Step show ?thesis by simp
    next
      case Panics
      with Step show ?thesis by simp
    qed
  qed
qed

lemma in_systrayReady_exec:
  "cnt in_systrayReady (threads (exec evs s))
     \<le> cnt in_systrayReady (threads s) + cnt systrayReady_called evs"
proof (induction evs arbitrary: s)
  case Nil
  then show ?case by simp
next
  case (Cons e evs)
  show ?case
  proof (cases e)
    case (Call c)
    show ?thesis
      using Cons [of "s\<lparr>threads := threads s @ [entry c]\<rparr>"] Call
      by (cases c) simp_all
  next
    case (Step t)
    show ?thesis
    proof (cases "step t s")
      case (Returns s')
      with Cons [of s'] Step in_systrayReady_step [OF Returns] show ?thesis by simp
    next
      case Blocks
      with Cons [of s] Step show ?thesis by simp
    next
      case Panics
      with Step show ?thesis by simp
    qed
  qed
qed

lemma owns_exec:
  "cnt (owns cb) (threads (exec evs s)) + count_list (map snd (onReady_calls (exec evs s))) cb
     \<le> cnt (owns cb) (threads s) + count_list (map snd (onReady_calls s)) cb
         + cnt (Run_called_with cb) evs"
proof (induction evs arbitrary: s)
  case Nil
  then show ?case by simp
next
  case (Cons e evs)
  show ?case
  proof (cases e)
    case (Call c)
    show ?thesis
      using Cons [of "s\<lparr>threads := threads s @ [entry c]\<rparr>"] Call
      by (cases c) simp_all
  next
    case (Step t)
    show ?thesis
    proof (cases "step t s")
      case (Returns s')
      with Cons [of s'] Step owns_step [OF Returns, of cb] show ?thesis by simp
    next
      case Blocks
      with Cons [of s] Step show ?thesis by simp
    next
      case Panics
      with Step show ?thesis by simp
    qed
  qed
qed

subsection \<open>Identifier allocation\<close>

lemma issues_step:
  assumes "step t s = Returns s'"
  shows "(issues t s s' = [] \<and> currentID s' = currentID s)
     \<or> (issues t s s' = [currentID s + 1] \<and> currentID s' = currentID s + 1)"
  using assms by (cases rule: step_cases) (simp_all add: issues_def)

lemma map_upt_shift: "f 1 # map (\<lambda>k. f (Suc k)) [1..<Suc n] = map f [1..<Suc (Suc n)]"
proof -
  have "[1..<Suc (Suc n)] = 1 # map Suc [1..<Suc n]"
    by (simp add: map_Suc_upt upt_conv_Cons del: upt_Suc)
  then show ?thesis by (simp add: comp_def del: upt_Suc)
qed

lemma issued_seq:
  "issued evs s = map (\<lambda>k. currentID s + of_nat k) [1..<Suc (length (issued evs s))]"
proof (induction evs arbitrary: s)
  case Nil
  then show ?case by simp
next
  case (Cons e evs)
  show ?case
  proof (cases e)
    case (Call c)
    with Cons [of "s\<lparr>threads := threads s @ [entry c]\<rparr>"] show ?thesis by simp
  next
    case (Step t)
    show ?thesis
    proof (cases "step t s")
      case (Returns s')
      let ?n = "length (issued evs s')"
      have ih: "issued evs s' = map (\<lambda>k. currentID s' + of_nat k) [1..<Suc ?n]"
        by (rule Cons)
      from issues_step [OF Returns] show ?thesis
      proof
        assume "issues t s s' = [] \<and> currentID s' = currentID s"
        with ih Step Returns show ?thesis by simp
      next
        assume a: "issues t s s' = [currentID s + 1] \<and> currentID s' = currentID s + 1"
        have "issued (e # evs) s = (currentID s + 1) # issued evs s'"
          using a Step Returns by simp
        also have "\<dots> = (currentID s + of_nat 1)
            # map (\<lambda>k. currentID s + of_nat (Suc k)) [1..<Suc ?n]"
        proof -
          have "currentID s' + of_nat k = currentID s + of_nat (Suc k)" for k
            using a by simp
          with ih have "issued evs s' = map (\<lambda>k. currentID s + of_nat (Suc k)) [1..<Suc ?n]"
            by (simp only:)
          then show ?thesis by (simp only: of_nat_1)
        qed
        also have "\<dots> = map (\<lambda>k. currentID s + of_nat k) [1..<Suc (Suc ?n)]"
          by (rule map_upt_shift)
        finally have "issued (e # evs) s
            = map (\<lambda>k. currentID s + of_nat k) [1..<Suc (Suc ?n)]" .
        moreover have "length (issued (e # evs) s) = Suc ?n"
          using a Step Returns by simp
        ultimately show ?thesis by (simp only:)
      qed
    next
      case Blocks
      with Cons [of s] Step show ?thesis by simp
    next
      case Panics
      with Step show ?thesis by simp
    qed
  qed
qed

lemma issued_init: "issued evs init = map of_nat [1..<Suc (length (issued evs init))]"
  using issued_seq [of evs init] by (simp add: init_def)

lemma sint_of_nat_small: "k < 2 ^ 31 \<Longrightarrow> sint (of_nat k :: int32) = int k"
  by (simp add: signed_of_nat signed_take_bit_int_eq_self)

lemma of_nat_inj32:
  assumes "1 \<le> a" "a \<le> 2 ^ 32" "1 \<le> b" "b \<le> 2 ^ 32" "(of_nat a :: int32) = of_nat b"
  shows "a = b"
proof -
  have "(of_nat (a - 1) :: int32) = of_nat a - 1" "(of_nat (b - 1) :: int32) = of_nat b - 1"
    using assms by simp_all
  with assms have "(of_nat (a - 1) :: int32) = of_nat (b - 1)" by simp
  moreover have "a - 1 < 2 ^ LENGTH(32)" "b - 1 < 2 ^ LENGTH(32)"
    using assms by simp_all
  ultimately have "a - 1 = b - 1"
    by (simp add: word_of_nat_eq_iff take_bit_nat_eq_self del: of_nat_diff)
  with assms show ?thesis by simp
qed

lemma length_issued_allocations:
  "length (issued (allocations (length (threads s)) n) s) = n"
proof (induction n arbitrary: s)
  case 0
  then show ?case by simp
next
  case (Suc n)
  let ?k = "length (threads s)"
  let ?s1 = "s\<lparr>threads := threads s @ [Add_70 [] [] None]\<rparr>"
  let ?s2 = "?s1\<lparr>currentID := currentID s + 1,
               threads := (threads ?s1)[?k := Add_71 (currentID s + 1) [] [] None]\<rparr>"
  have st: "step ?k ?s1 = Returns ?s2"
    by (simp add: step_def then_do_def atomic_AddInt32_def)
  have "length (threads ?s2) = Suc ?k"
    by simp
  with Suc.IH [of ?s2] st show ?case
    by (simp add: issues_def)
qed

lemma issued_allocations:
  "issued (allocations 0 n) init = map of_nat [1..<Suc n]"
proof -
  have "length (threads init) = 0" by (simp add: init_def)
  with length_issued_allocations [of init n]
  have "length (issued (allocations 0 n) init) = n" by simp
  with issued_init [of "allocations 0 n"] show ?thesis by (simp only:)
qed

subsection \<open>Concrete runs\<close>

lemma add_run: "exec add_schedule init = one_item"
  by (simp add: add_schedule_def one_item_def eval_defs)

lemma one_item_simps:
  "heap one_item = [\<lparr>item_id = 1, title = ''Open'', tooltip = ''Open window'', disabled = False,
               checked = False, remove = False, separator = False\<rparr>]"
  "menuItems one_item = (\<lambda>i. None)(1 := Some 0)"
  "menuItemsLock one_item = \<lparr>writer = False, pending = False, readers = 0\<rparr>"
  "backend one_item = [(Some 0, \<lparr>item_id = 1, title = ''Open'', tooltip = ''Open window'',
               disabled = False, checked = False, remove = False, separator = False\<rparr>, None)]"
  "currentID one_item = 1"
  "threads one_item = [Finished]"
  "ClickedCh one_item = \<lparr>sendq = [], recvq = []\<rparr>"
  by (simp_all add: one_item_def init_def)

lemma listen_run:
  "exec listen_schedule init = init\<lparr>ClickedCh := \<lparr>sendq = [], recvq = [0]\<rparr>,
     threads := [Recv_parked]\<rparr>"
  by (simp add: listen_schedule_def eval_defs)

lemma listen_state:
  "menuItems (exec listen_schedule init) = (\<lambda>i. None)"
  "menuItemsLock (exec listen_schedule init) = \<lparr>writer = False, pending = False, readers = 0\<rparr>"
  "ClickedCh (exec listen_schedule init) = \<lparr>sendq = [], recvq = [0]\<rparr>"
  "threads (exec listen_schedule init) = [Recv_parked]"
  unfolding listen_run by (simp_all add: init_def)

lemma miss_run:
  "exec miss_schedule init = init\<lparr>threads := [Recv_got None, Finished]\<rparr>"
  by (simp add: miss_schedule_def eval_defs)

lemma drop_run:
  "exec drop_schedule init = one_item\<lparr>threads := [Finished, Sel_156 (Some 0)]\<rparr>"
  by (simp add: drop_schedule_def add_schedule_def one_item_def eval_defs)

lemma late_listener_run:
  "exec late_listener_schedule init = one_item\<lparr>ClickedCh := \<lparr>sendq = [], recvq = [2]\<rparr>,
     threads := [Finished, Finished, Recv_parked]\<rparr>"
  by (simp add: late_listener_schedule_def drop_schedule_def add_schedule_def one_item_def
        eval_defs)

lemma store_run:
  "exec store_schedule init = init\<lparr>
     heap := [\<lparr>item_id = 1, title = ''Open'', tooltip = ''Open window'', disabled = False,
               checked = False, remove = False, separator = False\<rparr>],
     menuItems := (\<lambda>i. None)(1 := Some 0),
     menuItemsLock := \<lparr>writer = True, pending = False, readers = 0\<rparr>,
     currentID := 1,
     threads := [Upd_145 (Some 0) None]\<rparr>"
  by (simp add: store_schedule_def eval_defs)

lemma lookup_run:
  "exec lookup_schedule init = one_item\<lparr>menuItemsLock := \<lparr>writer = False, pending = False, readers = 1\<rparr>,
     threads := [Finished, Sel_155 (Some 0)]\<rparr>"
  by (simp add: lookup_schedule_def add_schedule_def one_item_def eval_defs)

lemma retitle_run:
  "exec retitle_schedule init = init\<lparr>
     heap := [\<lparr>item_id = 1, title = ''X'', tooltip = ''Open window'', disabled = False,
               checked = False, remove = False, separator = False\<rparr>],
     menuItems := (\<lambda>i. None)(1 := Some 0),
     currentID := 1,
     backend := [(Some 0, \<lparr>item_id = 1, title = ''Open'', tooltip = ''Open window'',
               disabled = False, checked = False, remove = False, separator = False\<rparr>, None)],
     threads := [Finished, Upd_142 (Some 0) None]\<rparr>"
  by (simp add: retitle_schedule_def eval_defs)

lemma two_ready_run:
  "exec two_ready_schedule init = init\<lparr>
     readyCh := \<lparr>sendq = [(2, ())], recvq = []\<rparr>,
     onReady_calls := [(3, 7)], os_locked := [0],
     threads := [Run_57, Ready_150, Ready_149_parked, Go_55]\<rparr>"
  by (simp add: two_ready_schedule_def eval_defs)

lemma writer_run:
  "exec writer_schedule init
     = one_item\<lparr>threads := [Finished, Field_write (Some 0) (SetTitle ''Close'')]\<rparr>"
  by (simp add: writer_schedule_def add_schedule_def one_item_def eval_defs)

lemma reader_interleaving_run:
  "exec reader_interleaving
       (one_item\<lparr>threads := [Finished, Field_write (Some 0) (SetTitle ''Close'')]\<rparr>)
     = one_item\<lparr>
         heap := [\<lparr>item_id = 1, title = ''Close'', tooltip = ''Open window'', disabled = False,
               checked = False, remove = False, separator = False\<rparr>],
         backend := [(Some 0, \<lparr>item_id = 1, title = ''Open'', tooltip = ''Open window'',
               disabled = False, checked = False, remove = False, separator = False\<rparr>, None),
             (Some 0, \<lparr>item_id = 1, title = ''Close'', tooltip = ''Open window'',
               disabled = False, checked = False, remove = False, separator = False\<rparr>, None)],
         threads := [Finished, Finished, Finished]\<rparr>"
  by (simp add: reader_interleaving_def one_item_def eval_defs)

lemma miss_lookup_run:
  "exec miss_lookup_schedule init = init\<lparr>ClickedCh := \<lparr>sendq = [], recvq = [0]\<rparr>,
     menuItemsLock := \<lparr>writer = False, pending = False, readers = 1\<rparr>,
     threads := [Recv_parked, Sel_154 5]\<rparr>"
  by (simp add: miss_lookup_schedule_def eval_defs)

lemma early_click_run:
  "menuItems (exec early_click_schedule init) 1 = None
   \<and> threads (exec early_click_schedule init) = [Recv_parked, Upd_144 (Some 0) None, Sel_153 1]
   \<and> step 2 (exec early_click_schedule init) = Blocks
   \<and> threads (exec (early_click_schedule @ [Step 2, Step 1, Step 1, Step 1, Step 2, Step 2,
         Step 2, Step 2]) init) = [Recv_got (Some 0), Finished, Finished]"
  by (simp add: early_click_schedule_def eval_defs)

lemma blocked_click_run:
  "exec blocked_click_schedule init = init\<lparr>
     heap := [\<lparr>item_id = 1, title = ''Open'', tooltip = ''Open window'', disabled = False,
               checked = False, remove = False, separator = False\<rparr>],
     menuItems := (\<lambda>i. None)(1 := Some 0),
     menuItemsLock := \<lparr>writer = True, pending = False, readers = 0\<rparr>,
     currentID := 1,
     threads := [Upd_145 (Some 0) None, Sel_153 1]\<rparr>"
  by (simp add: blocked_click_schedule_def store_schedule_def eval_defs)

lemma waiting_writer_run:
  "exec waiting_writer_schedule init = one_item\<lparr>
     heap := [\<lparr>item_id = 1, title = ''Close'', tooltip = ''Open window'', disabled = False,
               checked = False, remove = False, separator = False\<rparr>],
     menuItemsLock := \<lparr>writer = False, pending = True, readers = 1\<rparr>,
     threads := [Finished, Sel_154 1, Upd_142_wait (Some 0) None, Sel_153 1]\<rparr>"
  by (simp add: waiting_writer_schedule_def add_schedule_def one_item_def eval_defs)

lemma two_runs_run:
  "exec two_runs_schedule init = init\<lparr>
     onReady_calls := [(4, 7), (5, 7)], os_locked := [1, 0],
     threads := [Run_57, Run_57, Ready_150, Ready_150, Go_55, Go_55]\<rparr>"
  by (simp add: two_runs_schedule_def eval_defs)

lemma rerun_run:
  "exec rerun_schedule init = init\<lparr>
     quitting := True,
     onReady_calls := [(1, 7), (5, 7)], os_locked := [4, 0],
     threads := [Finished, Go_55, Ready_150, Finished, Run_57, Go_55, Ready_150]\<rparr>"
  by (simp add: rerun_schedule_def eval_defs)

section \<open>The claims\<close>

subsection \<open>C1: a click on an identifier that is not registered\<close>

text \<open>
  Claim C1, as amended. The claim says that a click whose identifier is not in the
  registry produces nothing on the click channel. Line 154 reads \<^verbatim>\<open>menuItems[id]\<close>
  without the two-value form, so a miss yields the nil pointer, and line 157 offers
  that pointer like any other. What holds, in every state a schedule can reach: when
  the dispatching goroutine is at the lookup of line 154 and the identifier is not in
  the registry, the lookup yields nil; whatever the other goroutines do from then on,
  in any interleaving, the dispatcher carries nil to the end of its call (no writer can
  register the identifier while the dispatcher holds the read lock, and the local
  variable is its own); at line 156 it can always step and offers nil: with no receiver
  parked on \<^verbatim>\<open>ClickedCh\<close> nothing changes and nothing is delivered, with a receiver
  parked the first one leaves the queue and receives nil. Three steps of its own take
  the dispatcher from the lookup to its return. No MenuItem is delivered for such a
  click. The registry is what it is at the lookup, not when the click arrives: a click
  that waits at line 153 for a writer finds what that writer has registered
  (\<open>early_click_run\<close>).
\<close>

theorem click_on_unknown_id:
  assumes "s = exec evs init" and "t < length (threads s)" and "threads s ! t = Sel_154 i"
    and "menuItems s i = None"
  shows "step t s = Returns (s\<lparr>threads := (threads s)[t := Sel_155 None]\<rparr>)
     \<and> (\<forall>evs'. carries_nil i (threads (exec evs' s) ! t))
     \<and> (\<forall>evs' item. threads (exec evs' s) ! t = Sel_156 item \<longrightarrow>
          item = None
          \<and> step t (exec evs' s) = Returns ((select_send None (exec evs' s))
              \<lparr>threads := (threads (select_send None (exec evs' s)))[t := Finished]\<rparr>))
     \<and> (\<forall>s'. recvq (ClickedCh s') = [] \<longrightarrow> select_send None s' = s')
     \<and> (\<forall>s' r rs. recvq (ClickedCh s') = r # rs \<longrightarrow>
          select_send None s' = s'\<lparr>ClickedCh := (ClickedCh s')\<lparr>recvq := rs\<rparr>,
             threads := (threads s')[r := deliver None (threads s' ! r)]\<rparr>)
     \<and> deliver None Recv_parked = Recv_got None
     \<and> threads (exec [Step t, Step t, Step t] s) ! t = Finished"
proof -
  have li: "lock_inv s"
    using assms(1) lock_inv_exec by simp
  have mi: "miss_inv t i s"
    using assms(2-4) by (simp add: miss_inv_def)
  have inv: "miss_inv t i (exec evs' s)" for evs'
    using li mi by (rule miss_inv_exec)
  have 1: "step t s = Returns (s\<lparr>threads := (threads s)[t := Sel_155 None]\<rparr>)"
    using assms(2-4) by (simp add: step_def then_do_def)
  have 2: "carries_nil i (threads (exec evs' s) ! t)" for evs'
    using inv [of evs'] by (simp add: miss_inv_def)
  have 3: "item = None
      \<and> step t (exec evs' s) = Returns ((select_send None (exec evs' s))
          \<lparr>threads := (threads (select_send None (exec evs' s)))[t := Finished]\<rparr>)"
    if "threads (exec evs' s) ! t = Sel_156 item" for evs' item
  proof -
    from inv [of evs'] that have "item = None" "t < length (threads (exec evs' s))"
      by (simp_all add: miss_inv_def)
    with that Sel_156_step [of t "exec evs' s" item] show ?thesis by simp
  qed
  have 4: "select_send None s' = s'" if "recvq (ClickedCh s') = []" for s'
    using that by (simp add: select_send_def)
  have 5: "select_send None s' = s'\<lparr>ClickedCh := (ClickedCh s')\<lparr>recvq := rs\<rparr>,
             threads := (threads s')[r := deliver None (threads s' ! r)]\<rparr>"
    if "recvq (ClickedCh s') = r # rs" for s' r rs
    using that by (simp add: select_send_def)
  have 6: "threads (exec [Step t, Step t, Step t] s) ! t = Finished"
    using li assms(2,3) by (rule dispatch_completes)
  from 1 2 3 4 5 6 show ?thesis by simp
qed

text \<open>
  C1, witness: a listener is parked on the channel, identifier 5 was never issued, the
  dispatcher is at line 154; two steps later it is at line 156 with nil, and after the
  third the listener has received nil.
\<close>

theorem click_on_unknown_id_witness:
  "threads (exec miss_lookup_schedule init) ! 1 = Sel_154 5
   \<and> menuItems (exec miss_lookup_schedule init) 5 = None
   \<and> threads (exec [Step 1, Step 1] (exec miss_lookup_schedule init)) ! 1 = Sel_156 None
   \<and> threads (exec [Step 1, Step 1, Step 1] (exec miss_lookup_schedule init))
       = [Recv_got None, Finished]"
proof -
  have a: "1 < length (threads (exec miss_lookup_schedule init))"
    "threads (exec miss_lookup_schedule init) ! 1 = Sel_154 5"
    "menuItems (exec miss_lookup_schedule init) 5 = None"
    unfolding miss_lookup_run by (simp_all add: init_def)
  have b: "threads (exec [Step 1, Step 1] (exec miss_lookup_schedule init)) ! 1 = Sel_156 None"
    "threads (exec [Step 1, Step 1, Step 1] (exec miss_lookup_schedule init))
       = [Recv_got None, Finished]"
    unfolding miss_lookup_run by (simp_all add: eval_defs)
  from click_on_unknown_id [OF refl a] a b show ?thesis by simp
qed

text \<open>
  C1, counterexample to the claim as stated: the listener blocked on the channel does
  receive a value for the click on the unregistered identifier 5, the nil pointer;
  both as the result of the function and along the schedule of the two goroutines.
\<close>

theorem nil_delivered_on_lookup_miss:
  "menuItems (exec listen_schedule init) 5 = None
   \<and> threads (exec listen_schedule init) = [Recv_parked]
   \<and> on_Returns threads (systrayMenuItemSelected 5 (exec listen_schedule init))
       = Returns [Recv_got None]
   \<and> threads (exec miss_schedule init) = [Recv_got None, Finished]"
  unfolding listen_run miss_run
  by (simp add: init_def systrayMenuItemSelected_def RLock_def RUnlock_def then_do_def
        select_send_def)

subsection \<open>C2: identifiers\<close>

text \<open>
  Claim C2, as amended. The claim says that identifiers are strictly increasing and
  never repeat for the lifetime of the process. The counter is an \<^verbatim>\<open>int32\<close> and
  \<^verbatim>\<open>atomic.AddInt32\<close> wraps around. What holds, for every schedule of any number of
  goroutines: the identifiers, in the order in which line 70 is executed, are
  1, 2, 3, ... as \<^verbatim>\<open>int32\<close> values; they are strictly increasing as signed numbers
  while fewer than \<open>2^31\<close> have been issued, and pairwise distinct while at most
  \<open>2^32\<close> have been issued.
\<close>

theorem ids_until_wrap:
  "issued evs init = map of_nat [1..<Suc (length (issued evs init))]
   \<and> (length (issued evs init) < 2 ^ 31 \<longrightarrow>
        sorted_wrt (\<lambda>a b. sint a < sint b) (issued evs init))
   \<and> (length (issued evs init) \<le> 2 ^ 32 \<longrightarrow> distinct (issued evs init))"
proof -
  let ?n = "length (issued evs init)"
  have eq: "issued evs init = map of_nat [1..<Suc ?n]" by (rule issued_init)
  have inc: "sorted_wrt (\<lambda>a b. sint a < sint b) (issued evs init)" if "?n < 2 ^ 31"
  proof -
    have "sorted_wrt (\<lambda>a b. sint (of_nat a :: int32) < sint (of_nat b :: int32)) [1..<Suc ?n]"
    proof (rule sorted_wrt_mono_rel [of _ "(<)"])
      fix a b assume "a \<in> set [1..<Suc ?n]" "b \<in> set [1..<Suc ?n]" "a < b"
      with that have "a < 2 ^ 31" "b < 2 ^ 31" by (simp_all del: upt_Suc)
      with \<open>a < b\<close> show "sint (of_nat a :: int32) < sint (of_nat b :: int32)"
        by (simp add: sint_of_nat_small)
    qed (rule sorted_wrt_upt)
    then have "sorted_wrt (\<lambda>a b. sint a < sint b) (map of_nat [1..<Suc ?n] :: int32 list)"
      by (simp only: sorted_wrt_map)
    with eq show ?thesis by simp
  qed
  have dis: "distinct (issued evs init)" if "?n \<le> 2 ^ 32"
  proof -
    have "inj_on (of_nat :: nat \<Rightarrow> int32) (set [1..<Suc ?n])"
    proof (rule inj_onI)
      fix a b assume "a \<in> set [1..<Suc ?n]" "b \<in> set [1..<Suc ?n]"
        and "(of_nat a :: int32) = of_nat b"
      with that show "a = b"
        by (intro of_nat_inj32 [of a b]) (simp_all del: upt_Suc)
    qed
    then have "distinct (map of_nat [1..<Suc ?n] :: int32 list)"
      by (simp only: distinct_map distinct_upt simp_thms)
    with eq show ?thesis by simp
  qed
  from eq inc dis show ?thesis by blast
qed

text \<open>
  C2, witness: two concurrent calls, the second goroutine executing line 70 first.
\<close>

theorem ids_until_wrap_witness:
  "issued two_adds_schedule init = [1, 2]
   \<and> length (issued two_adds_schedule init) < 2 ^ 31
   \<and> sorted_wrt (\<lambda>a b. sint a < sint b) (issued two_adds_schedule init)
   \<and> distinct (issued two_adds_schedule init)"
proof -
  have i: "issued two_adds_schedule init = [1, 2]"
    by (simp add: two_adds_schedule_def issues_def eval_defs)
  from ids_until_wrap [of two_adds_schedule] show ?thesis
    unfolding i by simp
qed

text \<open>
  C2, counterexample to the claim as stated: the \<open>2^31\<close>-th identifier issued is
  smaller than the one before it (it is \<open>-2^31\<close>), and the identifier issued by
  allocation number \<open>2^32 + 1\<close> is the first one again.
\<close>

theorem ids_wrap_counterexample:
  "sint (issued (allocations 0 2147483648) init ! 2147483647)
     < sint (issued (allocations 0 2147483648) init ! 2147483646)
   \<and> issued (allocations 0 4294967297) init ! 4294967296
     = issued (allocations 0 4294967297) init ! 0"
proof -
  have a: "issued (allocations 0 2147483648) init ! 2147483647 = (of_nat 2147483648 :: int32)"
    by (simp only: issued_allocations) (simp del: upt_Suc of_nat_numeral)
  have b: "issued (allocations 0 2147483648) init ! 2147483646 = (of_nat 2147483647 :: int32)"
    by (simp only: issued_allocations) (simp del: upt_Suc of_nat_numeral)
  have c: "issued (allocations 0 4294967297) init ! 4294967296 = (of_nat 4294967297 :: int32)"
    by (simp only: issued_allocations) (simp del: upt_Suc of_nat_numeral)
  have d: "issued (allocations 0 4294967297) init ! 0 = (of_nat 1 :: int32)"
    by (simp only: issued_allocations) (simp del: upt_Suc of_nat_numeral)
  show ?thesis
    unfolding a b c d by simp
qed

subsection \<open>C3: read your writes\<close>

text \<open>
  Claim C3. For every item of the heap and every one of the eight mutators, the field
  the mutator assigns holds the value it establishes, and: called while the lock is
  free, the call returns, and a lookup of the item's identifier in the registry then
  yields the item with that field assigned; and in every schedule in which the calling
  goroutine is the only writer (other goroutines may resolve clicks, listen, run the
  ready handshake or quit, in any interleaving), once the call has finished a lookup
  of the item's identifier yields the item with that field assigned.
\<close>

theorem read_your_writes:
  assumes "a < length (heap s)"
  shows "established m (field_write m (heap s ! a))
     \<and> (lock_free s \<longrightarrow> (\<exists>s'. invoke m (Some a) s = Returns s'
           \<and> lookup (item_id (heap s ! a)) s' = Some (field_write m (heap s ! a))))
     \<and> (t < length (threads s) \<and> threads s ! t = Field_write (Some a) m
         \<and> (\<forall>u < length (threads s). u \<noteq> t \<longrightarrow> \<not> writes (threads s ! u))
         \<and> (\<forall>e \<in> set evs. \<not> starts_writer e)
         \<and> threads (exec evs s) ! t = Finished
         \<longrightarrow> lookup (item_id (heap s ! a)) (exec evs s) = Some (field_write m (heap s ! a)))"
proof -
  have 1: "established m (field_write m (heap s ! a))"
    by (rule established_field_write)
  have 2: "\<exists>s'. invoke m (Some a) s = Returns s'
      \<and> lookup (item_id (heap s ! a)) s' = Some (field_write m (heap s ! a))" if "lock_free s"
    using assms that by (simp add: invoke_Returns lookup_def)
  have 3: "lookup (item_id (heap s ! a)) (exec evs s) = Some (field_write m (heap s ! a))"
    if "t < length (threads s)" "threads s ! t = Field_write (Some a) m"
      "\<forall>u < length (threads s). u \<noteq> t \<longrightarrow> \<not> writes (threads s ! u)"
      "\<forall>e \<in> set evs. \<not> starts_writer e" "threads (exec evs s) ! t = Finished"
  proof -
    from that assms have "ryw_inv t a m (heap s ! a) s"
      by (simp add: ryw_inv_def)
    then have "ryw_inv t a m (heap s ! a) (exec evs s)"
      using that(4) by (rule ryw_inv_exec)
    with that(5) show ?thesis
      by (auto simp: ryw_inv_def lookup_def)
  qed
  from 1 2 3 show ?thesis by blast
qed

text \<open>
  C3, witness: the item ''Open'' is given the title ''Close'', uninterleaved and while
  a click on the item is resolved in between (the reader makes the writer wait once).
\<close>

theorem read_your_writes_witness:
  "threads (exec writer_schedule init) ! 1 = Field_write (Some 0) (SetTitle ''Close'')
   \<and> lock_free (exec writer_schedule init)
   \<and> on_Returns (\<lambda>s'. map_option title (lookup 1 s'))
        (invoke (SetTitle ''Close'') (Some 0) (exec writer_schedule init))
       = Returns (Some ''Close'')
   \<and> threads (exec reader_interleaving (exec writer_schedule init)) ! 1 = Finished
   \<and> map_option title (lookup 1 (exec reader_interleaving (exec writer_schedule init)))
       = Some ''Close''"
proof -
  let ?s = "one_item\<lparr>threads := [Finished, Field_write (Some 0) (SetTitle ''Close'')]\<rparr>"
  have a: "0 < length (heap ?s)" and lf: "lock_free ?s"
    by (simp_all add: one_item_def init_def lock_free_def)
  have t: "1 < length (threads ?s) \<and> threads ?s ! 1 = Field_write (Some 0) (SetTitle ''Close'')"
    by simp
  have others: "\<forall>u < length (threads ?s). u \<noteq> 1 \<longrightarrow> \<not> writes (threads ?s ! u)"
    by (simp add: less_Suc_eq)
  have evs: "\<forall>e \<in> set reader_interleaving. \<not> starts_writer e"
    by (simp add: reader_interleaving_def)
  have fin: "threads (exec reader_interleaving ?s) ! 1 = Finished"
    by (simp add: reader_interleaving_run)
  from read_your_writes [OF a, of "SetTitle ''Close''" 1 reader_interleaving]
    lf t others evs fin
  have "(\<exists>s'. invoke (SetTitle ''Close'') (Some 0) ?s = Returns s'
          \<and> lookup (item_id (heap ?s ! 0)) s' = Some (field_write (SetTitle ''Close'') (heap ?s ! 0)))
      \<and> lookup (item_id (heap ?s ! 0)) (exec reader_interleaving ?s)
          = Some (field_write (SetTitle ''Close'') (heap ?s ! 0))"
    by blast
  then show ?thesis
    unfolding writer_run
    using lf fin by (auto simp: one_item_def init_def)
qed

subsection \<open>C4: a mutator changes its own field only\<close>

text \<open>
  Claim C4. A mutator call that returns leaves the heap as it was except for the
  item it was called on, and of that item it changes its designated field only:
  the identifier never; the title only by \<^verbatim>\<open>SetTitle\<close>, the tooltip only by
  \<^verbatim>\<open>SetTooltip\<close>, the separator flag only by \<^verbatim>\<open>SetSeparator\<close>, the disabled flag only
  by \<^verbatim>\<open>Enable\<close> and \<^verbatim>\<open>Disable\<close>, the checked flag only by \<^verbatim>\<open>Check\<close> and
  \<^verbatim>\<open>Uncheck\<close>, the remove flag only by \<^verbatim>\<open>Remove\<close>.
\<close>

theorem mutator_frame:
  assumes "invoke m (Some a) s = Returns s'"
  shows "length (heap s') = length (heap s)
     \<and> (\<forall>b. b \<noteq> a \<longrightarrow> heap s' ! b = heap s ! b)
     \<and> established m (heap s' ! a)
     \<and> item_id (heap s' ! a) = item_id (heap s ! a)
     \<and> (title (heap s' ! a) = title (heap s ! a) \<or> (\<exists>t. m = SetTitle t))
     \<and> (tooltip (heap s' ! a) = tooltip (heap s ! a) \<or> (\<exists>t. m = SetTooltip t))
     \<and> (separator (heap s' ! a) = separator (heap s ! a) \<or> (\<exists>b. m = SetSeparator b))
     \<and> (disabled (heap s' ! a) = disabled (heap s ! a) \<or> m = Enable \<or> m = Disable)
     \<and> (checked (heap s' ! a) = checked (heap s ! a) \<or> m = Check \<or> m = Uncheck)
     \<and> (remove (heap s' ! a) = remove (heap s ! a) \<or> m = Remove)"
proof -
  from assms have a: "a < length (heap s)"
    and h: "heap s' = (heap s)[a := field_write m (heap s ! a)]"
    by (auto simp: invoke_def update_def Returns_iffs)
  from a h field_write_frame [of m "heap s ! a"] show ?thesis
    by (simp add: established_field_write)
qed

text \<open>
  C4, witness: the scenario of the claim. After \<^verbatim>\<open>Disable\<close> on the item ''Open'' it
  is disabled and still titled ''Open''; after \<^verbatim>\<open>Check\<close> it is checked and still
  disabled.
\<close>

theorem mutator_frame_witness:
  "\<exists>s1 s2. invoke Disable (Some 0) (exec add_schedule init) = Returns s1
     \<and> disabled (heap s1 ! 0) \<and> title (heap s1 ! 0) = ''Open''
     \<and> invoke Check (Some 0) s1 = Returns s2
     \<and> checked (heap s2 ! 0) \<and> disabled (heap s2 ! 0) \<and> title (heap s2 ! 0) = ''Open''"
proof -
  have lf: "lock_free one_item" "0 < length (heap one_item)"
    by (simp_all add: one_item_simps lock_free_def)
  from invoke_Returns [OF lf(2) lf(1), of Disable]
  obtain s1 where s1: "invoke Disable (Some 0) one_item = Returns s1"
    and l1: "lock_free s1" "0 < length (heap s1)"
    using lf by (auto simp: lock_free_def)
  from invoke_Returns [OF l1(2) l1(1), of Check]
  obtain s2 where s2: "invoke Check (Some 0) s1 = Returns s2"
    by auto
  from mutator_frame [OF s1] have f1: "disabled (heap s1 ! 0)" "title (heap s1 ! 0) = ''Open''"
    by (simp_all add: one_item_simps)
  from mutator_frame [OF s2] f1 have "checked (heap s2 ! 0)" "disabled (heap s2 ! 0)"
    "title (heap s2 ! 0) = ''Open''"
    by simp_all
  with s1 s2 f1 show ?thesis
    unfolding add_run by blast
qed

subsection \<open>C5: the send on the click channel never waits, the call can\<close>

text \<open>
  Claim C5, as amended. The claim says that the dispatching call returns without ever
  blocking the UI thread. The send does not block, but the call starts with
  \<^verbatim>\<open>menuItemsLock.RLock()\<close> (line 153), and that waits for as long as a goroutine
  holds the write lock, which \<^verbatim>\<open>update\<close> does across the backend call of line 145, or
  waits for it. What holds: the \<^verbatim>\<open>select\<close> of lines 156-160 is a step a goroutine can
  always take, in every state, and it ends the call. It leaves the queue of senders
  of \<^verbatim>\<open>ClickedCh\<close> as it was (the item is never queued); with no receiver parked it
  changes nothing at all (the notification is dropped), and otherwise it serves the
  first parked receiver and no other goroutine (one item per click). The call, run
  without interleaving, blocks exactly when a writer holds or awaits the registry
  lock, and returns otherwise; a goroutine at line 153 cannot step exactly then, and
  never panics. The channel has no buffer, and in no state of any schedule is a sender
  queued on it. In every state of every schedule a dispatching goroutine that is past
  line 153 can take its next step, whatever the other goroutines do, and three steps of
  its own take it from line 154 to its return.
\<close>

theorem click_send_never_blocks:
  "(t < length (threads s) \<and> threads s ! t = Sel_156 item \<longrightarrow>
      step t s = Returns ((select_send item s)
        \<lparr>threads := (threads (select_send item s))[t := Finished]\<rparr>))
   \<and> sendq (ClickedCh (select_send item s)) = sendq (ClickedCh s)
   \<and> recvq (ClickedCh (select_send item s)) = tl (recvq (ClickedCh s))
   \<and> (recvq (ClickedCh s) = [] \<longrightarrow> select_send item s = s)
   \<and> (\<forall>r. r \<notin> set (take 1 (recvq (ClickedCh s))) \<longrightarrow>
        threads (select_send item s) ! r = threads s ! r)
   \<and> systrayMenuItemSelected i s
        = (if writer (menuItemsLock s) \<or> pending (menuItemsLock s) then Blocks
           else Returns (select_send (menuItems s i) s))
   \<and> (v < length (threads s) \<and> threads s ! v = Sel_153 i \<longrightarrow>
        (step v s = Blocks \<longleftrightarrow> writer (menuItemsLock s) \<or> pending (menuItemsLock s))
        \<and> step v s \<noteq> Panics)
   \<and> sendq (ClickedCh (exec evs init)) = []
   \<and> (u < length (threads (exec evs init)) \<and> past_RLock (threads (exec evs init) ! u) \<longrightarrow>
        (\<exists>s'. step u (exec evs init) = Returns s'))
   \<and> (u < length (threads (exec evs init)) \<and> threads (exec evs init) ! u = Sel_154 i \<longrightarrow>
        threads (exec [Step u, Step u, Step u] (exec evs init)) ! u = Finished)"
proof -
  have 1: "sendq (ClickedCh (exec evs init)) = []"
    using ready_inv_exec [of evs] by (simp add: ready_inv_def)
  have 2: "\<exists>s'. step u (exec evs init) = Returns s'"
    if "u < length (threads (exec evs init))" "past_RLock (threads (exec evs init) ! u)"
    using lock_inv_exec that by (rule past_RLock_enabled)
  have 3: "threads (exec [Step u, Step u, Step u] (exec evs init)) ! u = Finished"
    if "u < length (threads (exec evs init))" "threads (exec evs init) ! u = Sel_154 i"
    using lock_inv_exec that by (rule dispatch_completes)
  have 4: "systrayMenuItemSelected i s
        = (if writer (menuItemsLock s) \<or> pending (menuItemsLock s) then Blocks
           else Returns (select_send (menuItems s i) s))"
    by (simp add: systrayMenuItemSelected_def RLock_def RUnlock_def then_do_def)
  have 5: "(step v s = Blocks \<longleftrightarrow> writer (menuItemsLock s) \<or> pending (menuItemsLock s))
        \<and> step v s \<noteq> Panics"
    if "v < length (threads s)" "threads s ! v = Sel_153 i"
    using that by (simp add: step_def RLock_def then_do_def)
  have 6: "step t s = Returns ((select_send item s)
        \<lparr>threads := (threads (select_send item s))[t := Finished]\<rparr>)"
    if "t < length (threads s)" "threads s ! t = Sel_156 item"
    using that by (rule Sel_156_step)
  have 7: "sendq (ClickedCh (select_send item s)) = sendq (ClickedCh s)"
    "recvq (ClickedCh (select_send item s)) = tl (recvq (ClickedCh s))"
    "recvq (ClickedCh s) = [] \<longrightarrow> select_send item s = s"
    "\<forall>r. r \<notin> set (take 1 (recvq (ClickedCh s))) \<longrightarrow>
        threads (select_send item s) ! r = threads s ! r"
    by (auto simp: select_send_def split: list.splits)
  from 1 2 3 4 5 6 7 show ?thesis by blast
qed

text \<open>
  C5, witness: a click on the registered identifier 1 with no listener; the goroutine
  at line 156 finishes, the channel stays empty, and a listener that arrives afterwards
  parks and receives nothing.
\<close>

theorem click_send_never_blocks_witness:
  "threads (exec drop_schedule init) ! 1 = Sel_156 (Some 0)
   \<and> recvq (ClickedCh (exec drop_schedule init)) = []
   \<and> on_Returns threads (step 1 (exec drop_schedule init)) = Returns [Finished, Finished]
   \<and> on_Returns ClickedCh (step 1 (exec drop_schedule init))
        = Returns \<lparr>sendq = [], recvq = []\<rparr>
   \<and> threads (exec late_listener_schedule init) ! 2 = Recv_parked"
  using click_send_never_blocks [of 1 "exec drop_schedule init" "Some 0" 1 1 drop_schedule 1]
  unfolding drop_run late_listener_run
  by (simp add: one_item_simps select_send_def)

text \<open>
  C5, counterexample to the claim as stated: \<^verbatim>\<open>AddMenuItem\<close> is at the backend call
  of line 145, holding the write lock, when a click on identifier 1 arrives. There is
  no listener. The dispatching goroutine cannot step, however often it is scheduled,
  and the call blocks. In the second state a reader is inside, \<^verbatim>\<open>SetTitle\<close> waits in
  \<^verbatim>\<open>Lock\<close> for it, and the next click blocks behind the waiting writer.
\<close>

theorem click_blocked_by_writer:
  "threads (exec blocked_click_schedule init) = [Upd_145 (Some 0) None, Sel_153 1]
   \<and> recvq (ClickedCh (exec blocked_click_schedule init)) = []
   \<and> step 1 (exec blocked_click_schedule init) = Blocks
   \<and> exec [Step 1, Step 1, Step 1] (exec blocked_click_schedule init)
       = exec blocked_click_schedule init
   \<and> systrayMenuItemSelected 1 (exec blocked_click_schedule init) = Blocks
   \<and> threads (exec waiting_writer_schedule init)
       = [Finished, Sel_154 1, Upd_142_wait (Some 0) None, Sel_153 1]
   \<and> step 3 (exec waiting_writer_schedule init) = Blocks
   \<and> step 2 (exec waiting_writer_schedule init) = Blocks"
  unfolding blocked_click_run waiting_writer_run
  by (simp add: one_item_def eval_defs systrayMenuItemSelected_def)

subsection \<open>C6: the positional hint\<close>

text \<open>
  Claim C6. The backend call made by \<^verbatim>\<open>AddMenuItem\<close> carries the insert-before
  pointer it was given; the backend call made by each of the eight mutators carries
  nil. Each call makes exactly one backend call.
\<close>

theorem positional_hint_only_at_creation:
  "(AddMenuItem ti tt bef s = Returns (item, s') \<longrightarrow>
      (\<exists>x. backend s' = backend s @ [(item, x, bef)]))
   \<and> (invoke m item s = Returns s'' \<longrightarrow>
      (\<exists>x. backend s'' = backend s @ [(item, x, None)]))"
  by (auto simp: AddMenuItem_def invoke_def update_def Returns_iffs atomic_AddInt32_def
        new_MenuItem_def)

text \<open>
  C6, witness: a second item added before the first, then \<^verbatim>\<open>Remove\<close> on the first.
\<close>

theorem positional_hint_only_at_creation_witness:
  "on_Returns (\<lambda>r. map (\<lambda>e. snd (snd e)) (backend (snd r)))
      (AddMenuItem ''Quit'' [] (Some 0) (exec add_schedule init)) = Returns [None, Some 0]
   \<and> on_Returns (\<lambda>s'. map (\<lambda>e. snd (snd e)) (backend s'))
      (invoke Remove (Some 0) (exec add_schedule init)) = Returns [None, None]"
proof -
  have lf: "lock_free one_item" "0 < length (heap one_item)"
    by (simp_all add: one_item_simps lock_free_def)
  from AddMenuItem_Returns [OF lf(1), of "''Quit''" "[]" "Some 0"]
  obtain s' where a: "AddMenuItem ''Quit'' [] (Some 0) one_item = Returns (Some 1, s')"
    by (simp add: one_item_simps)
  from invoke_Returns [OF lf(2) lf(1), of Remove]
  obtain s'' where b: "invoke Remove (Some 0) one_item = Returns s''"
    by simp
  from positional_hint_only_at_creation
    [where s = one_item and ti = "''Quit''" and tt = "[]" and bef = "Some 0"
       and item = "Some 1" and s' = s' and m = Remove and s'' = s'] a
  have "map (\<lambda>e. snd (snd e)) (backend s') = [None, Some 0]"
    by (auto simp: one_item_simps)
  moreover from positional_hint_only_at_creation
    [where s = one_item and m = Remove and item = "Some 0" and s'' = s''
       and ti = "[]" and tt = "[]" and bef = None and s' = s''] b
  have "map (\<lambda>e. snd (snd e)) (backend s'') = [None, None]"
    by (auto simp: one_item_simps)
  ultimately show ?thesis
    unfolding add_run using a b by simp
qed

subsection \<open>C7: the registry lock\<close>

text \<open>
  Claim C7, as amended. In every state of every schedule: a goroutine at the store of
  line 144, at the backend call of line 145 or before the deferred unlock holds the
  write lock, alone and with no reader inside; a goroutine at the lookup of line 154
  holds the read lock, with no writer inside; a step changes the map only at line 144
  and calls the backend only at line 145, both under the write lock; no statement other
  than lines 144 and 154 depends on the map; and whenever the write lock is free, the
  registry maps each identifier to the item the backend was last given for it.
  The claim's last clause says more, that registry state and backend-visible state do
  not diverge outside one critical section. That fails for the fields of an item: the
  registry holds pointers, and a mutator assigns the field (line 78) before it takes
  the lock (line 142), so a lookup can show a field value the backend has not been
  given yet while nobody holds the lock.
\<close>

theorem registry_lock_discipline:
  assumes "s = exec evs init"
  shows "(\<forall>t < length (threads s). in_write (threads s ! t) \<longrightarrow>
            writer (menuItemsLock s) \<and> readers (menuItemsLock s) = 0)
     \<and> (\<forall>t < length (threads s). in_read (threads s ! t) \<longrightarrow>
            \<not> writer (menuItemsLock s) \<and> 0 < readers (menuItemsLock s))
     \<and> cnt in_write (threads s) \<le> 1
     \<and> (\<forall>t s'. step t s = Returns s' \<longrightarrow>
            (menuItems s' \<noteq> menuItems s \<longrightarrow>
               (\<exists>a bef. threads s ! t = Upd_144 (Some a) bef) \<and> writer (menuItemsLock s))
          \<and> (backend s' \<noteq> backend s \<longrightarrow>
               (\<exists>a bef. threads s ! t = Upd_145 (Some a) bef) \<and> writer (menuItemsLock s)))
     \<and> (\<forall>t m. t < length (threads s) \<and> \<not> accesses_registry (threads s ! t) \<longrightarrow>
            step t (s\<lparr>menuItems := m\<rparr>) = on_Returns (\<lambda>s'. s'\<lparr>menuItems := m\<rparr>) (step t s))
     \<and> (\<not> writer (menuItemsLock s) \<longrightarrow> menuItems s = backend_items s)"
proof -
  have li: "lock_inv s" and ai: "agree_inv s"
    using registry_inv_exec [of evs] assms by simp_all
  have w: "writer (menuItemsLock s) \<and> readers (menuItemsLock s) = 0"
    if "t < length (threads s)" "in_write (threads s ! t)" for t
    using li cnt_pos [of t "threads s" in_write] that
    by (auto simp: lock_inv_def split: if_splits)
  have r: "\<not> writer (menuItemsLock s) \<and> 0 < readers (menuItemsLock s)"
    if "t < length (threads s)" "in_read (threads s ! t)" for t
    using li cnt_pos [of t "threads s" in_read] that
    by (auto simp: lock_inv_def split: if_splits)
  have one: "cnt in_write (threads s) \<le> 1"
    using li by (simp add: lock_inv_def)
  have fr: "(menuItems s' \<noteq> menuItems s \<longrightarrow>
               (\<exists>a bef. threads s ! t = Upd_144 (Some a) bef) \<and> writer (menuItemsLock s))
          \<and> (backend s' \<noteq> backend s \<longrightarrow>
               (\<exists>a bef. threads s ! t = Upd_145 (Some a) bef) \<and> writer (menuItemsLock s))"
    if st: "step t s = Returns s'" for t s'
  proof -
    from st have lt: "t < length (threads s)"
      by (cases rule: step_cases)
    from step_registry_frame [OF st] w [OF lt] show ?thesis by auto
  qed
  have ag: "menuItems s = backend_items s" if "\<not> writer (menuItemsLock s)"
  proof -
    from that li have "cnt in_write (threads s) = 0" by (simp add: lock_inv_def)
    moreover have "cnt applying (threads s) \<le> cnt in_write (threads s)"
      by (rule cnt_mono) (case_tac x; simp)
    ultimately show ?thesis using ai by (simp add: agree_inv_def)
  qed
  from w r one fr ag step_ignores_registry show ?thesis by blast
qed

text \<open>
  C7, witness: a writer between store and backend call (the registry is one entry
  ahead, under the lock), and a reader between lookup and unlock.
\<close>

theorem registry_lock_discipline_witness:
  "in_write (threads (exec store_schedule init) ! 0)
   \<and> writer (menuItemsLock (exec store_schedule init))
   \<and> menuItems (exec store_schedule init) 1 = Some 0
   \<and> backend_items (exec store_schedule init) 1 = None
   \<and> in_read (threads (exec lookup_schedule init) ! 1)
   \<and> readers (menuItemsLock (exec lookup_schedule init)) = 1
   \<and> menuItems (exec lookup_schedule init) = backend_items (exec lookup_schedule init)"
  using registry_lock_discipline [of "exec store_schedule init" store_schedule]
    registry_lock_discipline [of "exec lookup_schedule init" lookup_schedule]
  unfolding store_run lookup_run
  by (simp add: init_def one_item_def backend_items_def)

text \<open>
  C7, counterexample to the claim as stated: \<^verbatim>\<open>SetTitle\<close> has executed line 78 and
  not yet line 142. No goroutine holds the lock or is inside a critical section, a
  lookup of identifier 1 shows the title ''X'', and the backend was last given
  ''Open''.
\<close>

theorem registry_ahead_of_backend:
  "lock_free (exec retitle_schedule init)
   \<and> cnt in_write (threads (exec retitle_schedule init)) = 0
   \<and> cnt in_read (threads (exec retitle_schedule init)) = 0
   \<and> map_option title (lookup 1 (exec retitle_schedule init)) = Some ''X''
   \<and> map_option title (backend_state (exec retitle_schedule init) 1) = Some ''Open''"
  unfolding retitle_run
  by (simp add: lock_free_def lookup_def backend_state_def init_def)

subsection \<open>C8: the ready callback\<close>

text \<open>
  Claim C8, as amended. The claim says that the callback is invoked at most once per
  process. \<^verbatim>\<open>Run\<close> (lines 50-58) has no guard: every call starts a goroutine that waits
  for a ready signal and then invokes the callback. What holds, in every state of every
  schedule: a callback is invoked at most as often as \<^verbatim>\<open>Run\<close> was called with it, and
  all callbacks together at most as often as \<^verbatim>\<open>Run\<close> was called, hence at most once in
  a process that calls \<^verbatim>\<open>Run\<close> once; the invocations are at most as many as the calls
  of \<^verbatim>\<open>systrayReady\<close> that have handed over their signal, which are at most as many
  as the backend made (none, if the backend never signals); no goroutine invokes twice;
  and the invoking goroutine is the one started at line 52, never a goroutine that
  called \<^verbatim>\<open>runtime.LockOSThread\<close>.
\<close>

theorem onReady_once_per_Run:
  "count_list (map snd (onReady_calls (exec evs init))) cb \<le> cnt (Run_called_with cb) evs
   \<and> length (onReady_calls (exec evs init)) \<le> cnt Run_called evs
   \<and> (cnt Run_called evs \<le> 1 \<longrightarrow> length (onReady_calls (exec evs init)) \<le> 1)
   \<and> length (onReady_calls (exec evs init)) \<le> cnt returned_ready (threads (exec evs init))
   \<and> cnt returned_ready (threads (exec evs init)) \<le> cnt systrayReady_called evs
   \<and> (cnt systrayReady_called evs = 0 \<longrightarrow> onReady_calls (exec evs init) = [])
   \<and> distinct (map fst (onReady_calls (exec evs init)))
   \<and> (\<forall>g \<in> set (map fst (onReady_calls (exec evs init))).
         g \<notin> set (os_locked (exec evs init)) \<and> threads (exec evs init) ! g = Go_55)"
proof -
  let ?s = "exec evs init"
  have ci: "callback_inv ?s" by (rule callback_inv_exec)
  have ri: "ready_inv ?s" by (rule ready_inv_exec)
  have 1: "count_list (map snd (onReady_calls ?s)) cb \<le> cnt (Run_called_with cb) evs"
    using owns_exec [of cb evs init] by (simp add: init_def)
  have "cnt ran_callback (threads ?s) \<le> cnt run_or_go (threads ?s)"
    by (rule cnt_mono) (case_tac x; simp)
  then have 2: "length (onReady_calls ?s) \<le> cnt Run_called evs"
    using ci run_or_go_exec [of evs init] by (simp add: callback_inv_def init_def)
  have "cnt ran_callback (threads ?s) \<le> cnt got_signal (threads ?s)"
    by (rule cnt_mono) (case_tac x; simp)
  then have 3: "length (onReady_calls ?s) \<le> cnt returned_ready (threads ?s)"
    using ci ri by (simp add: callback_inv_def ready_inv_def)
  have "cnt returned_ready (threads ?s) \<le> cnt in_systrayReady (threads ?s)"
    by (rule cnt_mono) (case_tac x; simp)
  then have 4: "cnt returned_ready (threads ?s) \<le> cnt systrayReady_called evs"
    using in_systrayReady_exec [of evs init] by (simp add: init_def)
  have 5: "distinct (map fst (onReady_calls ?s))"
    using ci by (simp add: callback_inv_def)
  have 6: "\<forall>g \<in> set (map fst (onReady_calls ?s)).
         g \<notin> set (os_locked ?s) \<and> threads ?s ! g = Go_55"
    using ci by (fastforce simp: callback_inv_def)
  from 2 have 7: "cnt Run_called evs \<le> 1 \<longrightarrow> length (onReady_calls ?s) \<le> 1"
    by simp
  from 3 4 have 8: "cnt systrayReady_called evs = 0 \<longrightarrow> onReady_calls ?s = []"
    by (cases "onReady_calls ?s") auto
  from 1 2 3 4 5 6 7 8 show ?thesis by blast
qed

text \<open>
  C8, witness: one call of \<^verbatim>\<open>Run\<close> by goroutine 0, two calls of \<^verbatim>\<open>systrayReady\<close>;
  the callback runs once, on goroutine 3.
\<close>

theorem onReady_once_per_Run_witness:
  "cnt (Run_called_with 7) two_ready_schedule = 1
   \<and> cnt systrayReady_called two_ready_schedule = 2
   \<and> onReady_calls (exec two_ready_schedule init) = [(3, 7)]
   \<and> os_locked (exec two_ready_schedule init) = [0]
   \<and> threads (exec two_ready_schedule init) ! 3 = Go_55"
  using onReady_once_per_Run [of two_ready_schedule 7]
  unfolding two_ready_run
  by (simp add: two_ready_schedule_def)

text \<open>
  C8, counterexample to the claim as stated: two calls of \<^verbatim>\<open>Run\<close> with the
  callback 7 and two ready signals, first with both calls running side by side, then
  with the second call made after \<^verbatim>\<open>Quit\<close> has ended the first. The callback is invoked
  twice in the one process.
\<close>

theorem onReady_twice_in_one_process:
  "cnt Run_called two_runs_schedule = 2
   \<and> map snd (onReady_calls (exec two_runs_schedule init)) = [7, 7]
   \<and> cnt Run_called rerun_schedule = 2
   \<and> map snd (onReady_calls (exec rerun_schedule init)) = [7, 7]
   \<and> threads (exec rerun_schedule init) ! 0 = Finished"
  unfolding two_runs_run rerun_run
  by (simp add: two_runs_schedule_def rerun_schedule_def)

subsection \<open>C9: AddMenuItem stages the item, update publishes it\<close>

text \<open>
  Claim C9. \<^verbatim>\<open>AddMenuItem(title, tooltip, before)\<close>, called in any state a schedule
  can reach while the lock is free, returns a new item with the identifier just allocated, the given title and tooltip
  and the four flags false. Constructing it (lines 70-71) tells the backend and the
  registry nothing: the staged state has the same backend calls and the same registry,
  and none of the calls is for the new item. The item reaches the backend through
  \<^verbatim>\<open>update\<close>, the step every mutator ends with, which \<^verbatim>\<open>AddMenuItem\<close> itself calls at
  line 72: that is the first mutation of the item, and when \<^verbatim>\<open>AddMenuItem\<close> returns
  the item is registered and the backend has been given it.
\<close>

theorem AddMenuItem_stages_then_updates:
  assumes "s = exec evs init" and "lock_free s"
    and "staged = snd (new_MenuItem \<lparr>item_id = currentID s + 1, title = ti, tooltip = tt,
           disabled = False, checked = False, remove = False, separator = False\<rparr>
           (snd (atomic_AddInt32 s)))"
  shows "\<exists>a s'. AddMenuItem ti tt bef s = Returns (Some a, s')
     \<and> heap s' ! a = \<lparr>item_id = currentID s + 1, title = ti, tooltip = tt, disabled = False,
           checked = False, remove = False, separator = False\<rparr>
     \<and> heap staged ! a = heap s' ! a
     \<and> backend staged = backend s \<and> menuItems staged = menuItems s
     \<and> (\<forall>e \<in> set (backend staged). fst e \<noteq> Some a)
     \<and> update (Some a) bef staged = Returns s'
     \<and> backend s' = backend s @ [(Some a, heap s' ! a, bef)]
     \<and> lookup (currentID s + 1) s' = Some (heap s' ! a)"
proof -
  have "backend_closed s"
    using assms(1) backend_closed_exec by simp
  then have fresh: "\<forall>e \<in> set (backend s). fst e \<noteq> Some (length (heap s))"
    by (fastforce simp: backend_closed_def)
  with assms(2,3) show ?thesis
    by (simp add: AddMenuItem_Returns lookup_def new_MenuItem_def atomic_AddInt32_def
          update_Returns lock_free_def)
qed

text \<open>
  C9, witness: a second item ''Quit'' added before the first.
\<close>

theorem AddMenuItem_stages_then_updates_witness:
  "lock_free (exec add_schedule init)
   \<and> on_Returns fst (AddMenuItem ''Quit'' ''Leave'' (Some 0) (exec add_schedule init))
       = Returns (Some 1)
   \<and> on_Returns (\<lambda>r. lookup 2 (snd r))
        (AddMenuItem ''Quit'' ''Leave'' (Some 0) (exec add_schedule init))
       = Returns (Some \<lparr>item_id = 2, title = ''Quit'', tooltip = ''Leave'', disabled = False,
           checked = False, remove = False, separator = False\<rparr>)
   \<and> on_Returns (\<lambda>r. last (backend (snd r)))
        (AddMenuItem ''Quit'' ''Leave'' (Some 0) (exec add_schedule init))
       = Returns (Some 1, \<lparr>item_id = 2, title = ''Quit'', tooltip = ''Leave'', disabled = False,
           checked = False, remove = False, separator = False\<rparr>, Some 0)"
proof -
  have lf: "lock_free one_item"
    by (simp add: one_item_simps lock_free_def)
  then have lf': "lock_free (exec add_schedule init)"
    by (simp add: add_run)
  note r = AddMenuItem_Returns [OF lf, of "''Quit''" "''Leave''" "Some 0"]
  from AddMenuItem_stages_then_updates [OF refl lf' refl, of "''Quit''" "''Leave''" "Some 0"]
  show ?thesis
    using lf unfolding add_run r by (simp add: one_item_simps lookup_def)
qed

subsection \<open>C10: systrayReady blocks until its signal is taken\<close>

text \<open>
  Claim C10. In every state of every schedule: the calls of \<^verbatim>\<open>systrayReady\<close> that
  have returned are exactly as many as the goroutines of \<^verbatim>\<open>Run\<close> that have taken a
  signal at line 53, hence at most as many as the calls of \<^verbatim>\<open>Run\<close>; with one call of
  \<^verbatim>\<open>Run\<close> at most one call of \<^verbatim>\<open>systrayReady\<close> ever returns, and every other one
  stays blocked. The send of line 149 has no guard: with no receiver waiting the
  caller parks, and a parked caller cannot take a step of its own.
\<close>

theorem systrayReady_blocking_send:
  assumes "s = exec evs init"
  shows "cnt returned_ready (threads s) = cnt got_signal (threads s)
     \<and> cnt returned_ready (threads s) \<le> cnt Run_called evs
     \<and> (cnt Run_called evs \<le> 1 \<longrightarrow>
          (\<forall>t u. t < length (threads s) \<and> u < length (threads s)
             \<and> threads s ! t = Ready_150 \<and> threads s ! u = Ready_150 \<longrightarrow> t = u))
     \<and> (\<forall>t < length (threads s). threads s ! t = Ready_149_parked \<longrightarrow> step t s = Blocks)
     \<and> (\<forall>t < length (threads s). threads s ! t = Ready_149 \<and> recvq (readyCh s) = [] \<longrightarrow>
          (\<exists>s'. step t s = Returns s' \<and> threads s' ! t = Ready_149_parked))"
proof -
  have ri: "ready_inv s"
    using ready_inv_exec [of evs] assms by simp
  then have 1: "cnt returned_ready (threads s) = cnt got_signal (threads s)"
    by (simp add: ready_inv_def)
  have "cnt got_signal (threads s) \<le> cnt run_or_go (threads s)"
    by (rule cnt_mono) (case_tac x; simp)
  with 1 have 2: "cnt returned_ready (threads s) \<le> cnt Run_called evs"
    using run_or_go_exec [of evs init] assms by (simp add: init_def)
  have 3: "t = u" if "cnt Run_called evs \<le> 1" "t < length (threads s)" "u < length (threads s)"
    "threads s ! t = Ready_150" "threads s ! u = Ready_150" for t u
  proof -
    from 2 that(1) have "cnt returned_ready (threads s) \<le> 1" by simp
    from cnt_unique [OF this that(2,3)] that(4,5) show ?thesis by simp
  qed
  have 4: "step t s = Blocks" if "t < length (threads s)" "threads s ! t = Ready_149_parked" for t
    using that by (simp add: step_def then_do_def)
  have 5: "\<exists>s'. step t s = Returns s' \<and> threads s' ! t = Ready_149_parked"
    if "t < length (threads s)" "threads s ! t = Ready_149 \<and> recvq (readyCh s) = []" for t
    using that by (simp add: step_def then_do_def)
  from 1 2 3 4 5 show ?thesis by blast
qed

text \<open>
  C10, witness: one call of \<^verbatim>\<open>Run\<close> and two of \<^verbatim>\<open>systrayReady\<close>, run to the end;
  the first has returned, the second is parked and cannot move.
\<close>

theorem systrayReady_blocking_send_witness:
  "cnt Run_called two_ready_schedule = 1
   \<and> threads (exec two_ready_schedule init) = [Run_57, Ready_150, Ready_149_parked, Go_55]
   \<and> cnt returned_ready (threads (exec two_ready_schedule init)) = 1
   \<and> step 2 (exec two_ready_schedule init) = Blocks"
  using systrayReady_blocking_send [of "exec two_ready_schedule init" two_ready_schedule]
  unfolding two_ready_run
  by (simp add: two_ready_schedule_def)

end
